theory Spec2Isabelle
  imports Main
begin

section \<open>Strings and errors\<close>

text \<open>
  A Python \<open>str\<close> is a sequence of Unicode code points; \<open>len\<close> and slicing count code
  points. It is modelled as a list of code points, so that the one non-ASCII label of the
  program (the em dash, U+2014) is a single character, as it is in Python.
\<close>

type_synonym pystr = "nat list"

definition ascii :: "string \<Rightarrow> pystr" where
  "ascii s = map of_char s"

text \<open>The exceptions of the modelled code paths.\<close>

datatype py_error = OverflowError | IndexError | ValueError

section \<open>Size utilities\<close>

text \<open>\<open>str(n)\<close> for an integer: decimal digits, with a minus sign below zero.\<close>

fun py_digits :: "nat \<Rightarrow> pystr" where
  "py_digits n = (if n < 10 then [48 + n] else py_digits (n div 10) @ [48 + n mod 10])"

declare py_digits.simps [simp del]

definition str_int :: "int \<Rightarrow> pystr" where
  "str_int i = (if i < 0 then 45 # py_digits (nat (- i)) else py_digits (nat i))"

text \<open>
  \<open>size_b / threshold\<close> is Python's true division of two integers: the IEEE double
  nearest to the exact quotient (ties to even), or \<open>OverflowError\<close> when that double
  would be \<open>2 ^ 1024\<close> or more. Every threshold of \<open>format_size\<close> is \<open>1 << k\<close>, so the
  quotient of a positive \<open>a\<close> is \<open>a\<close> rounded to 53 significant bits and scaled by
  \<open>2 ^ k\<close>. The double is kept as the pair \<open>(m, k)\<close> of value \<open>m / 2 ^ k\<close>.
\<close>

fun bit_length :: "nat \<Rightarrow> nat" where
  "bit_length n = (if n = 0 then 0 else Suc (bit_length (n div 2)))"

declare bit_length.simps [simp del]

definition round_half_even :: "int \<Rightarrow> int \<Rightarrow> int" where
  "round_half_even a b =
     (let q = a div b; r = a mod b
      in if b < 2 * r \<or> (2 * r = b \<and> odd q) then q + 1 else q)"

definition round53 :: "int \<Rightarrow> int" where
  "round53 a = (let e = bit_length (nat a) - 53 in round_half_even a (2 ^ e) * 2 ^ e)"

definition true_div_pow2 :: "int \<Rightarrow> nat \<Rightarrow> py_error + int \<times> nat" where
  "true_div_pow2 a k =
     (let m = round53 a
      in if 2 ^ (1024 + k) \<le> m then Inl OverflowError else Inr (m, k))"

text \<open>
  The format \<open>.1f\<close> of a non-negative double: its exact value rounded to one decimal
  place, ties to even, printed with all its integer digits.
\<close>

definition fmt_1f :: "int \<times> nat \<Rightarrow> pystr" where
  "fmt_1f x =
     (let t = round_half_even (10 * fst x) (2 ^ snd x)
      in py_digits (nat (t div 10)) @ ascii ''.'' @ py_digits (nat (t mod 10)))"

text \<open>The unit table of \<open>format_size\<close>: each unit with the shift of its threshold.\<close>

definition units :: "(pystr \<times> nat) list" where
  "units = [(ascii ''GB'', 30), (ascii ''MB'', 20), (ascii ''KB'', 10)]"

fun format_units :: "int \<Rightarrow> (pystr \<times> nat) list \<Rightarrow> py_error + pystr" where
  "format_units size_b [] = Inr (str_int size_b @ ascii '' B'')"
| "format_units size_b ((unit, k) # rest) =
     (if 2 ^ k \<le> size_b
      then (case true_div_pow2 size_b k of
              Inl err \<Rightarrow> Inl err
            | Inr q \<Rightarrow> Inr (fmt_1f q @ ascii '' '' @ unit))
      else format_units size_b rest)"

definition format_size :: "int \<Rightarrow> py_error + pystr" where
  "format_size size_kb =
     (if size_kb = 0 then Inr (ascii ''0 B'')
      else format_units (size_kb * 1024) units)"

section \<open>Data model\<close>

record entry =
  abs_path :: pystr
  rel_path :: pystr
  size_kb :: int
  size_human :: pystr
  status :: pystr
  deleted :: bool
  marked :: bool

text \<open>
  \<open>__post_init__\<close>: an empty label is replaced by \<open>format_size(size_kb)\<close>; an exception
  of \<open>format_size\<close> leaves the constructor.
\<close>

definition post_init :: "entry \<Rightarrow> py_error + entry" where
  "post_init e =
     (if size_human e = [] then
        (case format_size (size_kb e) of
           Inl err \<Rightarrow> Inl err
         | Inr label \<Rightarrow> Inr (e\<lparr>size_human := label\<rparr>))
      else Inr e)"

text \<open>
  The constructor call of the scanner,
  \<open>NodeModulesEntry(abs_path=..., rel_path=..., size_kb=...)\<close>: the other fields take
  their defaults.
\<close>

definition NodeModulesEntry :: "pystr \<Rightarrow> pystr \<Rightarrow> int \<Rightarrow> py_error + entry" where
  "NodeModulesEntry ap rp kb =
     post_init \<lparr>abs_path = ap, rel_path = rp, size_kb = kb, size_human = [],
                status = ascii ''Active'', deleted = False, marked = False\<rparr>"

section \<open>Paths\<close>

text \<open>
  The functions of \<open>os.path\<close> (\<open>posixpath\<close>) that the scanner calls, on strings. The
  separator is the slash, code point 47.
\<close>

definition sep :: nat where
  "sep = 47"

text \<open>\<open>os.path.join(a, b)\<close>.\<close>

definition join_path :: "pystr \<Rightarrow> pystr \<Rightarrow> pystr" where
  "join_path a b =
     (if b \<noteq> [] \<and> hd b = sep then b
      else if a = [] \<or> last a = sep then a @ b
      else a @ [sep] @ b)"

text \<open>
  What \<open>join_path\<close> puts before a name that holds no slash: the path, and a slash
  unless the path is empty or ends in one.
\<close>

definition with_sep :: "pystr \<Rightarrow> pystr" where
  "with_sep d = (if d = [] \<or> last d = sep then d else d @ [sep])"

text \<open>
  \<open>os.path.dirname(p)\<close>: the part up to and with the last slash, and without its
  trailing slashes unless it consists of slashes only.
\<close>

definition rstrip_sep :: "pystr \<Rightarrow> pystr" where
  "rstrip_sep p = rev (dropWhile (\<lambda>c. c = sep) (rev p))"

definition dirname :: "pystr \<Rightarrow> pystr" where
  "dirname p =
     (let head = rev (dropWhile (\<lambda>c. c \<noteq> sep) (rev p))
      in if head \<noteq> [] \<and> head \<noteq> replicate (length head) sep then rstrip_sep head else head)"

text \<open>\<open>p.split('/')\<close>.\<close>

fun split_sep :: "pystr \<Rightarrow> pystr list" where
  "split_sep [] = [[]]"
| "split_sep (c # cs) =
     (if c = sep then [] # split_sep cs
      else (case split_sep cs of
              [] \<Rightarrow> [[c]]
            | x # xs \<Rightarrow> (c # x) # xs))"

text \<open>\<open>'/'.join(comps)\<close>.\<close>

fun join_sep :: "pystr list \<Rightarrow> pystr" where
  "join_sep [] = []"
| "join_sep [x] = x"
| "join_sep (x # y # ys) = x @ [sep] @ join_sep (y # ys)"

text \<open>
  \<open>os.path.normpath(path)\<close>. The loop over the components keeps the list
  \<open>new_comps\<close>; \<open>initial_slashes\<close> is 0, 1 or 2.
\<close>

definition initial_slashes :: "pystr \<Rightarrow> nat" where
  "initial_slashes p =
     (if take 1 p = [sep] then
        (if take 2 p = [sep, sep] \<and> take 3 p \<noteq> [sep, sep, sep] then 2 else 1)
      else 0)"

definition norm_step :: "nat \<Rightarrow> pystr list \<Rightarrow> pystr \<Rightarrow> pystr list" where
  "norm_step slashes new_comps part =
     (if part = [] \<or> part = ascii ''.'' then new_comps
      else if part \<noteq> ascii ''..'' \<or> (slashes = 0 \<and> new_comps = []) \<or>
              (new_comps \<noteq> [] \<and> last new_comps = ascii ''..'')
        then new_comps @ [part]
      else if new_comps \<noteq> [] then butlast new_comps
      else new_comps)"

definition normpath :: "pystr \<Rightarrow> pystr" where
  "normpath path =
     (if path = [] then ascii ''.''
      else
        (let slashes = initial_slashes path;
             comps = foldl (norm_step slashes) [] (split_sep path);
             p = replicate slashes sep @ join_sep comps
         in if p = [] then ascii ''.'' else p))"

text \<open>\<open>os.path.abspath(path)\<close>, with the working directory \<open>cwd\<close> of the process.\<close>

definition abspath :: "pystr \<Rightarrow> pystr \<Rightarrow> pystr" where
  "abspath cwd path =
     normpath (if take 1 path = [sep] then path else join_path cwd path)"

text \<open>
  \<open>os.path.relpath(path, start)\<close>: \<open>ValueError\<close> for an empty path; otherwise the
  components of both absolute paths, one \<open>..\<close> for each component of \<open>start\<close> beyond
  their common prefix, and the rest of \<open>path\<close>.
\<close>

fun common_prefix_len :: "'a list \<Rightarrow> 'a list \<Rightarrow> nat" where
  "common_prefix_len (x # xs) (y # ys) = (if x = y then Suc (common_prefix_len xs ys) else 0)"
| "common_prefix_len xs ys = 0"

definition relpath :: "pystr \<Rightarrow> pystr \<Rightarrow> pystr \<Rightarrow> py_error + pystr" where
  "relpath cwd path start =
     (if path = [] then Inl ValueError
      else
        (let start_list = filter (\<lambda>x. x \<noteq> []) (split_sep (abspath cwd start));
             path_list = filter (\<lambda>x. x \<noteq> []) (split_sep (abspath cwd path));
             i = common_prefix_len start_list path_list;
             rel_list = replicate (length start_list - i) (ascii ''..'') @ drop i path_list
         in if rel_list = [] then Inr (ascii ''.'')
            else Inr (foldl join_path (hd rel_list) (tl rel_list))))"

text \<open>
  The components that \<open>normpath\<close> keeps of an absolute path (one with initial slashes,
  where the loop treats \<open>..\<close> at the top in one way whatever their number).
\<close>

definition norm_comps :: "pystr \<Rightarrow> pystr list" where
  "norm_comps p = foldl (norm_step 1) [] (split_sep p)"

text \<open>The path that \<open>abspath\<close> hands to \<open>normpath\<close>.\<close>

definition anchor :: "pystr \<Rightarrow> pystr \<Rightarrow> pystr" where
  "anchor cwd p = (if take 1 p = [sep] then p else with_sep cwd @ p)"

text \<open>
  What follows the root, with its slash, in the parent of a target: the names on the
  way, joined, and a slash; nothing in the root itself.
\<close>

definition tail_of :: "pystr list \<Rightarrow> pystr" where
  "tail_of ns = (if ns = [] then [] else join_sep ns @ [sep])"

section \<open>Scanning\<close>

text \<open>
  The directories below the scan root, as \<open>os.walk\<close> sees them: a directory lists its
  subdirectories by name (\<open>dirnames\<close>; the names that \<open>os.scandir\<close> reports in one
  directory are distinct); a symbolic link to a directory is among the \<open>dirnames\<close> of
  its parent and is not walked into; a directory that cannot be read is listed by its
  parent and yields nothing (\<open>onerror\<close> swallows the error).
\<close>

datatype fs_tree = Dir "(pystr \<times> fs_tree) list" | Symlink | Unreadable

definition node_modules :: pystr where
  "node_modules = ascii ''node_modules''"

text \<open>\<open>dirnames.remove("node_modules")\<close>: the first entry of that name goes.\<close>

fun remove_name :: "pystr \<Rightarrow> (pystr \<times> fs_tree) list \<Rightarrow> (pystr \<times> fs_tree) list" where
  "remove_name n [] = []"
| "remove_name n ((name, t) # kids) =
     (if name = n then kids else (name, t) # remove_name n kids)"

lemma remove_name_subset: "set (remove_name n kids) \<subseteq> set kids"
  by (induction kids) (auto split: if_splits)

lemma kid_size: "(name, t) \<in> set kids \<Longrightarrow> size t < size (Dir kids)"
  by (induction kids) (auto simp: less_Suc_eq_le)

text \<open>
  The loop over \<open>os.walk(root, topdown=True)\<close> in \<open>find_node_modules\<close>: the list \<open>paths\<close>,
  in the order of the walk. At a directory whose \<open>dirnames\<close> hold \<open>node_modules\<close> the
  path is recorded and the name removed, so the walk goes on into the other
  subdirectories only.
\<close>

function (sequential) walk_paths :: "pystr \<Rightarrow> fs_tree \<Rightarrow> pystr list" where
  "walk_paths dirpath (Dir kids) =
     (if node_modules \<in> set (map fst kids)
      then join_path dirpath node_modules #
           concat (map (\<lambda>(name, t). walk_paths (join_path dirpath name) t)
                     (remove_name node_modules kids))
      else concat (map (\<lambda>(name, t). walk_paths (join_path dirpath name) t) kids))"
| "walk_paths dirpath Symlink = []"
| "walk_paths dirpath Unreadable = []"
  by pat_completeness auto
termination
proof (relation "measure (\<lambda>(dirpath, t). size t)", goal_cases)
  case 1
  show ?case by simp
next
  case (2 dirpath kids x name t)
  then have "(name, t) \<in> set kids" using remove_name_subset by fastforce
  then show ?case using kid_size by simp
next
  case (3 dirpath kids x name t)
  then have "(name, t) \<in> set kids" by simp
  then show ?case using kid_size by simp
qed

text \<open>
  \<open>measure_and_enqueue\<close>: \<open>du\<close> stands for \<open>measure_size\<close> (the size that \<open>du -sk\<close>
  reports, 0 on any failure). An exception of \<open>relpath\<close> or of the constructor leaves
  the worker, and no record is put on the queue.
\<close>

definition measure_and_enqueue ::
  "pystr \<Rightarrow> pystr \<Rightarrow> (pystr \<Rightarrow> int) \<Rightarrow> pystr \<Rightarrow> py_error + entry" where
  "measure_and_enqueue root cwd du ap =
     (let kb = du ap;
          parent_abs = dirname ap
      in case relpath cwd parent_abs root of
           Inl err \<Rightarrow> Inl err
         | Inr rel \<Rightarrow> NodeModulesEntry ap rel kb)"

text \<open>
  The records that \<open>find_node_modules\<close> puts on the queue, in the order of \<open>paths\<close> (the
  workers finish in any order, so the queue holds them in some order).
\<close>

definition find_node_modules :: "pystr \<Rightarrow> pystr \<Rightarrow> (pystr \<Rightarrow> int) \<Rightarrow> fs_tree \<Rightarrow> entry list" where
  "find_node_modules root cwd du tree =
     concat (map (\<lambda>ap. case measure_and_enqueue root cwd du ap of
                          Inl err \<Rightarrow> []
                        | Inr e \<Rightarrow> [e])
               (walk_paths root tree))"

text \<open>
  What \<open>os.scandir\<close> guarantees of the names in a directory: a name is not empty, holds
  no slash and is neither \<open>.\<close> nor \<open>..\<close>, and the names of one directory are distinct.
\<close>

definition wf_name :: "pystr \<Rightarrow> bool" where
  "wf_name n = (n \<noteq> [] \<and> sep \<notin> set n \<and> n \<noteq> ascii ''.'' \<and> n \<noteq> ascii ''..'')"

fun wf_tree :: "fs_tree \<Rightarrow> bool" where
  "wf_tree (Dir kids) =
     (distinct (map fst kids) \<and> (\<forall>(name, t) \<in> set kids. wf_name name \<and> wf_tree t))"
| "wf_tree Symlink = True"
| "wf_tree Unreadable = True"

text \<open>
  The walk of \<open>walk_paths\<close> once more, keeping for each directory that holds
  \<open>node_modules\<close> the names on the way down to it from the root instead of the joined
  path.
\<close>

function (sequential) walk_names :: "fs_tree \<Rightarrow> pystr list list" where
  "walk_names (Dir kids) =
     (if node_modules \<in> set (map fst kids)
      then [] # concat (map (\<lambda>(name, t). map ((#) name) (walk_names t))
                          (remove_name node_modules kids))
      else concat (map (\<lambda>(name, t). map ((#) name) (walk_names t)) kids))"
| "walk_names Symlink = []"
| "walk_names Unreadable = []"
  by pat_completeness auto
termination
proof (relation "measure size", goal_cases)
  case 1
  show ?case by simp
next
  case (2 kids x name t)
  then have "(name, t) \<in> set kids" using remove_name_subset by fastforce
  then show ?case using kid_size by simp
next
  case (3 kids x name t)
  then have "(name, t) \<in> set kids" by simp
  then show ?case using kid_size by simp
qed

text \<open>The subdirectories that the walk goes into from a directory.\<close>

definition walked :: "(pystr \<times> fs_tree) list \<Rightarrow> (pystr \<times> fs_tree) list" where
  "walked kids =
     (if node_modules \<in> set (map fst kids) then remove_name node_modules kids else kids)"

text \<open>A small tree for the concrete runs: \<open>a/node_modules/x/node_modules\<close>, \<open>a/src\<close>,
  \<open>node_modules\<close>, \<open>b/c/node_modules\<close> (a symbolic link) and the symbolic link \<open>l\<close>.\<close>

definition sample_tree :: fs_tree where
  "sample_tree =
     Dir [(ascii ''a'',
            Dir [(ascii ''node_modules'',
                   Dir [(ascii ''x'', Dir [(ascii ''node_modules'', Dir [])])]),
                 (ascii ''src'', Dir [])]),
          (ascii ''node_modules'', Dir []),
          (ascii ''b'', Dir [(ascii ''c'', Dir [(ascii ''node_modules'', Symlink)])]),
          (ascii ''l'', Symlink)]"

section \<open>Input handling\<close>

text \<open>
  Key codes: \<open>ord(c)\<close> of a character, and the values of the \<open>curses\<close> key constants
  (ncurses: \<open>KEY_DOWN = 0402\<close>, \<open>KEY_UP = 0403\<close>, \<open>KEY_NPAGE = 0522\<close>,
  \<open>KEY_PPAGE = 0523\<close>, octal).
\<close>

definition ord :: "char \<Rightarrow> int" where
  "ord c = of_char c"

definition KEY_DOWN :: int where "KEY_DOWN = 258"
definition KEY_UP :: int where "KEY_UP = 259"
definition KEY_NPAGE :: int where "KEY_NPAGE = 338"
definition KEY_PPAGE :: int where "KEY_PPAGE = 339"

definition SCROLLOFF :: int where "SCROLLOFF = 3"

text \<open>
  The result is \<open>(selected, scroll, quit_flag, delete_flag, mark_flag)\<close>. The key chain
  sets the selection and the flags; the scroll-off block below it runs for every key.
  Python's \<open>//\<close> is floor division, as \<open>div\<close> on \<open>int\<close> is.
\<close>

definition handle_input ::
  "int \<Rightarrow> int \<Rightarrow> int \<Rightarrow> entry list \<Rightarrow> int \<Rightarrow> int \<times> int \<times> bool \<times> bool \<times> bool" where
  "handle_input key selected scroll entries height =
     (let table_rows = height - 5;
          n = int (length entries);
          (sel, quit_flag, delete_flag, mark_flag) =
            (if key = KEY_UP \<or> key = ord CHR ''k'' then (max 0 (selected - 1), False, False, False)
             else if key = KEY_DOWN \<or> key = ord CHR ''j''
               then (min (max 0 (n - 1)) (selected + 1), False, False, False)
             else if key = KEY_PPAGE then (max 0 (selected - table_rows), False, False, False)
             else if key = KEY_NPAGE
               then (min (max 0 (n - 1)) (selected + table_rows), False, False, False)
             else if key = ord CHR ''g'' then (0, False, False, False)
             else if key = ord CHR ''G'' then (max 0 (n - 1), False, False, False)
             else if key = ord CHR ''Q'' \<or> key = ord CHR ''q'' \<or> key = 27
               then (selected, True, False, False)
             else if key = ord CHR ''D'' then (selected, False, True, False)
             else if key = ord CHR '' '' then (selected, False, False, True)
             else (selected, False, False, False));
          so = min SCROLLOFF (table_rows div 2);
          scroll1 = (if sel - scroll < so then max 0 (sel - so) else scroll);
          scroll2 = (if scroll1 + table_rows - so \<le> sel then sel - table_rows + so + 1
                     else scroll1)
      in (sel, max 0 scroll2, quit_flag, delete_flag, mark_flag))"

text \<open>The keys that the chain of \<open>handle_input\<close> recognises.\<close>

definition recognised_keys :: "int list" where
  "recognised_keys =
     [KEY_UP, ord CHR ''k'', KEY_DOWN, ord CHR ''j'', KEY_PPAGE, KEY_NPAGE, ord CHR ''g'',
      ord CHR ''G'', ord CHR ''Q'', ord CHR ''q'', 27, ord CHR ''D'', ord CHR '' '']"

text \<open>
  The scroll-off block on its own: the scroll offset that \<open>handle_input\<close> returns for the
  selection \<open>sel\<close> it has settled on.
\<close>

definition scrolloff_adjust :: "int \<Rightarrow> int \<Rightarrow> int \<Rightarrow> int" where
  "scrolloff_adjust sel scroll height =
     (let table_rows = height - 5;
          so = min SCROLLOFF (table_rows div 2);
          scroll1 = (if sel - scroll < so then max 0 (sel - so) else scroll);
          scroll2 = (if scroll1 + table_rows - so \<le> sel then sel - table_rows + so + 1
                     else scroll1)
      in max 0 scroll2)"

section \<open>Delete\<close>

text \<open>
  What the filesystem does when \<open>delete_entry\<close> is called on a record: the path is
  missing (\<open>os.path.exists\<close> is false), or \<open>shutil.rmtree\<close> returns, or it raises an
  exception \<open>exc\<close>, kept as \<open>str(exc)\<close>.
\<close>

datatype rm_outcome = Missing | Removed | Raised pystr

text \<open>The result is \<open>None\<close> on success and an error string otherwise.\<close>

definition delete_entry :: "rm_outcome \<Rightarrow> entry \<Rightarrow> pystr option" where
  "delete_entry fs e =
     (case fs of
        Missing \<Rightarrow> Some (ascii ''Already gone'')
      | Removed \<Rightarrow> None
      | Raised msg \<Rightarrow> Some msg)"

section \<open>Main loop\<close>

text \<open>
  \<open>xs[i]\<close> of Python: a negative index counts from the end, and an index out of range
  raises \<open>IndexError\<close>. \<open>py_position\<close> is the position read.
\<close>

definition py_position :: "'a list \<Rightarrow> int \<Rightarrow> py_error + nat" where
  "py_position xs i =
     (let n = int (length xs); j = (if i < 0 then n + i else i)
      in if 0 \<le> j \<and> j < n then Inr (nat j) else Inl IndexError)"

text \<open>The variables of \<open>main_loop\<close> that live across iterations.\<close>

record ui_state =
  entries :: "entry list"
  selected :: int
  scroll :: int

definition initial_state :: ui_state where
  "initial_state = \<lparr>entries = [], selected = 0, scroll = 0\<rparr>"

text \<open>
  What one iteration reads from its environment: the records drained from the queue,
  the terminal height of \<open>getmaxyx\<close>, the key of \<open>getch\<close> (\<open>-1\<close>: none), the key read by
  the confirmation dialog if it opens, and for each call of \<open>delete_entry\<close> in the batch
  (numbered from 0) what the filesystem does.
\<close>

record loop_input =
  arrivals :: "entry list"
  height :: int
  key :: int
  confirm_key :: int
  removal :: "nat \<Rightarrow> rm_outcome"

text \<open>Draining the queue, and the clamp of selection and scroll before drawing.\<close>

definition drain_and_clamp :: "loop_input \<Rightarrow> ui_state \<Rightarrow> ui_state" where
  "drain_and_clamp inp s =
     (let es = entries s @ arrivals inp
      in if es = [] then s\<lparr>entries := es\<rparr>
         else
           (let n = int (length es);
                table_rows = height inp - 5
            in \<lparr>entries = es,
                selected = min (selected s) (max 0 (n - 1)),
                scroll = min (scroll s) (max 0 (n - table_rows))\<rparr>))"

text \<open>
  The rows of \<open>draw_table\<close> that show a record: for each \<open>i\<close> in \<open>range(table_rows)\<close> the
  index \<open>scroll + i\<close>, unless it is \<open>len(entries)\<close> or more (that row is cleared).
\<close>

definition drawn_rows :: "entry list \<Rightarrow> int \<Rightarrow> int \<Rightarrow> int list" where
  "drawn_rows es scr h =
     filter (\<lambda>idx. \<not> int (length es) \<le> idx) (map (\<lambda>i. scr + int i) [0..<nat (h - 5)])"

text \<open>The block under \<open>if mark_flag and entries\<close>.\<close>

definition mark_current :: "int \<Rightarrow> ui_state \<Rightarrow> py_error + ui_state" where
  "mark_current h s =
     (case py_position (entries s) (selected s) of
        Inl err \<Rightarrow> Inl err
      | Inr p \<Rightarrow>
          (let e = entries s ! p;
               es = (if \<not> deleted e then (entries s)[p := e\<lparr>marked := \<not> marked e\<rparr>]
                     else entries s)
           in if selected s < int (length es) - 1 then
                (let sel = selected s + 1;
                     table_rows = h - 5;
                     so = min SCROLLOFF (table_rows div 2);
                     scr = (if scroll s + table_rows - so \<le> sel
                            then sel - table_rows + so + 1 else scroll s)
                 in Inr \<lparr>entries = es, selected = sel, scroll = max 0 scr\<rparr>)
              else Inr (s\<lparr>entries := es\<rparr>)))"

text \<open>
  The targets of a delete, as positions in \<open>entries\<close> (the list \<open>targets\<close> of the source
  holds the record objects themselves, so a change to a target is a change to the
  record in \<open>entries\<close>): the marked records that are not deleted, or else the current
  row if it is not deleted.
\<close>

definition delete_targets :: "entry list \<Rightarrow> int \<Rightarrow> py_error + nat list" where
  "delete_targets es sel =
     (let targets = filter (\<lambda>i. marked (es ! i) \<and> \<not> deleted (es ! i)) [0..<length es]
      in if targets \<noteq> [] then Inr targets
         else
           (case py_position es sel of
              Inl err \<Rightarrow> Inl err
            | Inr p \<Rightarrow> Inr (if \<not> deleted (es ! p) then [p] else [])))"

text \<open>The first loop over the targets of a confirmed delete.\<close>

fun begin_delete :: "nat list \<Rightarrow> entry list \<Rightarrow> entry list" where
  "begin_delete [] es = es"
| "begin_delete (t # ts) es =
     begin_delete ts (es[t := (es ! t)\<lparr>status := ascii ''Deleting...'', marked := False\<rparr>])"

text \<open>
  The body of the second loop: \<open>if error:\<close> is true for a string that is not empty.
  The em dash of the label is the code point 8212.
\<close>

definition record_outcome :: "pystr option \<Rightarrow> entry \<Rightarrow> entry" where
  "record_outcome error e =
     (case error of
        Some msg \<Rightarrow>
          (if msg \<noteq> [] then e\<lparr>status := ascii ''Err: '' @ take 8 msg\<rparr>
           else e\<lparr>deleted := True, status := ascii ''Deleted'', size_kb := 0,
                   size_human := [8212]\<rparr>)
      | None \<Rightarrow>
          e\<lparr>deleted := True, status := ascii ''Deleted'', size_kb := 0, size_human := [8212]\<rparr>)"

text \<open>The second loop; \<open>k\<close> counts the calls of \<open>delete_entry\<close>.\<close>

fun delete_loop :: "(nat \<Rightarrow> rm_outcome) \<Rightarrow> nat \<Rightarrow> nat list \<Rightarrow> entry list \<Rightarrow> entry list" where
  "delete_loop fs k [] es = es"
| "delete_loop fs k (t # ts) es =
     delete_loop fs (Suc k) ts
       (es[t := record_outcome (delete_entry (fs k) (es ! t)) (es ! t)])"

text \<open>The block under \<open>if delete_flag and entries\<close>.\<close>

definition delete_workflow :: "loop_input \<Rightarrow> ui_state \<Rightarrow> py_error + ui_state" where
  "delete_workflow inp s =
     (case delete_targets (entries s) (selected s) of
        Inl err \<Rightarrow> Inl err
      | Inr targets \<Rightarrow>
          if targets = [] then Inr s
          else if confirm_key inp = ord CHR ''Y'' \<or> confirm_key inp = ord CHR ''y''
            then Inr (s\<lparr>entries :=
                         delete_loop (removal inp) 0 targets (begin_delete targets (entries s))\<rparr>)
          else Inr s)"

text \<open>
  One iteration of \<open>while True\<close>: the loop goes on with a new state, or is left by
  \<open>break\<close>, or an exception leaves \<open>main_loop\<close>.
\<close>

datatype outcome = Continue ui_state | Quit | Crash py_error

definition iteration :: "loop_input \<Rightarrow> ui_state \<Rightarrow> outcome" where
  "iteration inp s0 =
     (let s = drain_and_clamp inp s0
      in if key inp = - 1 then Continue s
         else
           (case handle_input (key inp) (selected s) (scroll s) (entries s) (height inp) of
              (sel, scr, quit_flag, delete_flag, mark_flag) \<Rightarrow>
                if quit_flag then Quit
                else
                  (case (if mark_flag \<and> entries s \<noteq> []
                         then mark_current (height inp) (s\<lparr>selected := sel, scroll := scr\<rparr>)
                         else Inr (s\<lparr>selected := sel, scroll := scr\<rparr>)) of
                     Inl err \<Rightarrow> Crash err
                   | Inr s1 \<Rightarrow>
                       if delete_flag \<and> entries s1 \<noteq> [] then
                         (case delete_workflow inp s1 of
                            Inl err \<Rightarrow> Crash err
                          | Inr s2 \<Rightarrow> Continue s2)
                       else Continue s1)))"

text \<open>
  The records the scanner puts on the queue are built by the constructor call of
  \<open>measure_and_enqueue\<close>.
\<close>

definition scanner_record :: "entry \<Rightarrow> bool" where
  "scanner_record e =
     (NodeModulesEntry (abs_path e) (rel_path e) (size_kb e) = Inr e)"

text \<open>The states of \<open>main_loop\<close> at the head of an iteration.\<close>

inductive reachable :: "ui_state \<Rightarrow> bool" where
  start: "reachable initial_state"
| step: "reachable s \<Longrightarrow> list_all scanner_record (arrivals inp) \<Longrightarrow>
         iteration inp s = Continue s' \<Longrightarrow> reachable s'"

text \<open>
  Two conditions on a record, for the invariants of the session: its label fits its
  size (the label of \<open>format_size\<close> before deletion, size 0 and the em dash after it),
  and it is not both marked and deleted.
\<close>

definition label_ok :: "entry \<Rightarrow> bool" where
  "label_ok e =
     (if deleted e then size_kb e = 0 \<and> size_human e = [8212]
      else format_size (size_kb e) = Inr (size_human e))"

definition mark_ok :: "entry \<Rightarrow> bool" where
  "mark_ok e = (\<not> (marked e \<and> deleted e))"

text \<open>A record as the scanner builds it, for the concrete runs below.\<close>

definition sample_entry :: entry where
  "sample_entry =
     \<lparr>abs_path = ascii ''/r/a/node_modules'', rel_path = ascii ''a'', size_kb = 100,
      size_human = ascii ''100.0 KB'', status = ascii ''Active'', deleted = False,
      marked = False\<rparr>"

section \<open>Properties of the input handling\<close>

lemma keys_simps:
  "KEY_UP = 259" "KEY_DOWN = 258" "KEY_NPAGE = 338" "KEY_PPAGE = 339"
  "ord CHR ''k'' = 107" "ord CHR ''j'' = 106" "ord CHR ''g'' = 103" "ord CHR ''G'' = 71"
  "ord CHR ''Q'' = 81" "ord CHR ''q'' = 113" "ord CHR ''D'' = 68" "ord CHR '' '' = 32"
  "ord CHR ''x'' = 120" "ord CHR ''Y'' = 89" "ord CHR ''y'' = 121" "ord CHR ''n'' = 110"
  by (simp_all add: KEY_UP_def KEY_DOWN_def KEY_NPAGE_def KEY_PPAGE_def ord_def)

lemma scrolloff_adjust_fixed:
  assumes "0 \<le> scr" and "min SCROLLOFF ((h - 5) div 2) \<le> sel - scr"
    and "sel < scr + (h - 5) - min SCROLLOFF ((h - 5) div 2)"
  shows "scrolloff_adjust sel scr h = scr"
proof -
  have "\<not> sel - scr < min SCROLLOFF ((h - 5) div 2)"
    using assms(2) by linarith
  moreover have "\<not> scr + (h - 5) - min SCROLLOFF ((h - 5) div 2) \<le> sel"
    using assms(3) by linarith
  ultimately show ?thesis
    using assms(1) unfolding scrolloff_adjust_def Let_def
    by (simp only: if_False max_def split: if_splits) simp
qed

lemma handle_input_unrecognised:
  "k \<notin> set recognised_keys \<Longrightarrow>
   handle_input k sel scr es h = (sel, scrolloff_adjust sel scr h, False, False, False)"
  unfolding handle_input_def scrolloff_adjust_def recognised_keys_def Let_def
  by simp

lemma handle_input_delete_key:
  "handle_input (ord CHR ''D'') sel scr es h =
   (sel, scrolloff_adjust sel scr h, False, True, False)"
  unfolding handle_input_def scrolloff_adjust_def Let_def
  by (simp add: keys_simps)

lemma handle_input_mark_key:
  "handle_input (ord CHR '' '') sel scr es h =
   (sel, scrolloff_adjust sel scr h, False, False, True)"
  unfolding handle_input_def scrolloff_adjust_def Let_def
  by (simp add: keys_simps)

text \<open>
  Claim C3, as stated: an unrecognised key, the delete key and the mark key leave the
  selection and the scroll offset unchanged. The scroll offset is not left unchanged:
  with the selection on row 0 of ten records, a scroll offset of 5 and a terminal of 15
  lines, the unrecognised key \<open>x\<close> brings the scroll offset back to 0, since the
  scroll-off block runs for every key.
\<close>

theorem handle_input_scroll_counterexample:
  "ord CHR ''x'' \<notin> set recognised_keys \<and>
   handle_input (ord CHR ''x'') 0 5 (replicate 10 sample_entry) 15 =
   (0, 0, False, False, False)"
  by (simp add: handle_input_def recognised_keys_def keys_simps SCROLLOFF_def Let_def)

text \<open>
  Claim C3, amended: for every selection, scroll offset, list of records and height, an
  unrecognised key returns the selection unchanged and all three flags false, the delete
  key returns the selection unchanged and only the delete flag, the mark key returns the
  selection unchanged and only the mark flag; in each case the scroll offset returned is
  the one the scroll-off rule gives for the unchanged selection, and that is the old
  scroll offset whenever it is not negative and the selection already stands inside the
  scroll-off window.
\<close>

theorem handle_input_other_keys:
  "(k \<notin> set recognised_keys \<longrightarrow>
      handle_input k sel scr es h = (sel, scrolloff_adjust sel scr h, False, False, False)) \<and>
   handle_input (ord CHR ''D'') sel scr es h =
     (sel, scrolloff_adjust sel scr h, False, True, False) \<and>
   handle_input (ord CHR '' '') sel scr es h =
     (sel, scrolloff_adjust sel scr h, False, False, True) \<and>
   (0 \<le> scr \<and> min SCROLLOFF ((h - 5) div 2) \<le> sel - scr \<and>
    sel < scr + (h - 5) - min SCROLLOFF ((h - 5) div 2) \<longrightarrow>
      scrolloff_adjust sel scr h = scr)"
  using handle_input_unrecognised [of k sel scr es h] handle_input_delete_key [of sel scr es h]
    handle_input_mark_key [of sel scr es h] scrolloff_adjust_fixed [of scr h sel]
  by blast

theorem handle_input_other_keys_witness:
  "ord CHR ''x'' \<notin> set recognised_keys \<and>
   handle_input (ord CHR ''x'') 4 1 (replicate 10 sample_entry) 15 =
     (4, 1, False, False, False) \<and>
   handle_input (ord CHR ''D'') 4 1 (replicate 10 sample_entry) 15 =
     (4, 1, False, True, False) \<and>
   handle_input (ord CHR '' '') 4 1 (replicate 10 sample_entry) 15 =
     (4, 1, False, False, True)"
  using handle_input_other_keys [of "ord CHR ''x''" 4 1 "replicate 10 sample_entry" 15]
  by (simp add: recognised_keys_def keys_simps SCROLLOFF_def)

section \<open>Properties of the size utilities\<close>

text \<open>
  \<open>bit_length\<close> is the number of bits of a positive number.
\<close>

lemma bit_length_bounds:
  "0 < n \<Longrightarrow> 2 ^ (bit_length n - 1) \<le> n \<and> n < 2 ^ bit_length n"
proof (induction n rule: bit_length.induct)
  case (1 n)
  show ?case
  proof (cases "n div 2 = 0")
    case True
    with 1(2) have "n = 1" by presburger
    then show ?thesis by (simp add: bit_length.simps)
  next
    case False
    then have pos: "0 < n div 2" by simp
    have ih: "2 ^ (bit_length (n div 2) - 1) \<le> n div 2 \<and> n div 2 < 2 ^ bit_length (n div 2)"
      using 1(1) 1(2) pos by simp
    have bl: "bit_length n = Suc (bit_length (n div 2))"
      using 1(2) by (subst bit_length.simps) simp
    have blpos: "0 < bit_length (n div 2)"
      using pos by (subst bit_length.simps) simp
    then obtain c where c: "bit_length (n div 2) = Suc c"
      by (cases "bit_length (n div 2)") auto
    from ih c have "2 * 2 ^ c \<le> n" "n < 2 * 2 ^ Suc c" by auto
    then show ?thesis using bl c by simp
  qed
qed

lemma bit_length_unique:
  assumes "2 ^ c \<le> n" and "n < 2 ^ Suc c"
  shows "bit_length n = Suc c"
proof -
  have pos: "0 < n" using assms(1) by (metis less_le_trans zero_less_numeral zero_less_power)
  let ?b = "bit_length n"
  have b: "2 ^ (?b - 1) \<le> n" "n < 2 ^ ?b" using bit_length_bounds [OF pos] by auto
  have "(2::nat) ^ c < 2 ^ ?b" using assms(1) b(2) by linarith
  then have 1: "c < ?b" by (rule power_less_imp_less_exp [rotated]) simp
  have "(2::nat) ^ (?b - 1) < 2 ^ Suc c" using assms(2) b(1) by linarith
  then have 2: "?b - 1 < Suc c" by (rule power_less_imp_less_exp [rotated]) simp
  from 1 2 show ?thesis by linarith
qed

text \<open>Bounds in int, for a positive int.\<close>

lemma bit_length_int_bounds:
  fixes a :: int
  assumes "0 < a"
  shows "2 ^ (bit_length (nat a) - 1) \<le> a" and "a < 2 ^ bit_length (nat a)"
proof -
  have "0 < nat a" using assms by simp
  from bit_length_bounds [OF this]
  have "int (2 ^ (bit_length (nat a) - 1)) \<le> int (nat a)" "int (nat a) < int (2 ^ bit_length (nat a))"
    by (simp_all only: of_nat_le_iff of_nat_less_iff)
  then show "2 ^ (bit_length (nat a) - 1) \<le> a" and "a < 2 ^ bit_length (nat a)"
    using assms by simp_all
qed

lemma bit_length_int_unique:
  fixes a :: int
  assumes "2 ^ c \<le> a" and "a < 2 ^ Suc c"
  shows "bit_length (nat a) = Suc c"
proof (rule bit_length_unique)
  have pos: "0 < a" using assms(1) by (smt (verit) zero_less_power)
  show "2 ^ c \<le> nat a" using assms(1) pos by (simp add: le_nat_iff)
  show "nat a < 2 ^ Suc c" using assms(2) pos by (simp add: nat_less_iff)
qed

lemma round_half_even_one: "round_half_even a 1 = a"
  by (simp add: round_half_even_def)

lemma round_half_even_bounds:
  "a div b \<le> round_half_even a b" "round_half_even a b \<le> a div b + 1"
  by (simp_all add: round_half_even_def Let_def)

lemma round53_exact:
  assumes "0 < a" and "a < 2 ^ 53"
  shows "round53 a = a"
proof -
  have "(2::int) ^ (bit_length (nat a) - 1) < 2 ^ 53"
    using bit_length_int_bounds(1) [OF assms(1)] assms(2) by linarith
  then have "bit_length (nat a) - 1 < 53"
    by (rule power_less_imp_less_exp [rotated]) simp
  then have "bit_length (nat a) - 53 = 0" by simp
  then show ?thesis by (simp add: round53_def round_half_even_one)
qed

text \<open>The case of more than 53 bits: \<open>X = 2 ^ e\<close> with \<open>e > 0\<close>.\<close>

lemma round53_unfold:
  assumes "2 ^ (52 + e) \<le> a" and "a < 2 ^ (53 + e)"
  shows "round53 a = round_half_even a (2 ^ e) * 2 ^ e"
proof -
  have "bit_length (nat a) = Suc (52 + e)"
    using assms by (intro bit_length_int_unique) simp_all
  then show ?thesis by (simp add: round53_def)
qed

lemma div_lo:
  fixes a X lo :: int
  assumes X: "0 < X" and "lo * X \<le> a"
  shows "lo \<le> a div X"
  using assms zdiv_mono1 by fastforce

lemma div_hi:
  fixes a X hi :: int
  assumes X: "0 < X" and "a < hi * X"
  shows "a div X < hi"
proof -
  have "(a div X) * X = a - a mod X" by (simp add: minus_mod_eq_div_mult)
  moreover have "0 \<le> a mod X" using X by simp
  ultimately have "(a div X) * X < hi * X" using assms(2) by linarith
  then show ?thesis using X by (simp add: mult_less_cancel_right_pos)
qed

lemma div_mod_eq:
  fixes a X q :: int
  assumes "0 < X" "q * X \<le> a" "a < (q + 1) * X"
  shows "a div X = q" and "a mod X = a - q * X"
proof -
  have "q \<le> a div X" using assms(1,2) by (rule div_lo)
  moreover have "a div X < q + 1" using assms(1,3) by (rule div_hi)
  ultimately show "a div X = q" by linarith
  then show "a mod X = a - q * X" by (metis minus_div_mult_eq_mod)
qed

text \<open>Rounding at the top of a binade: \<open>K\<close> stands for \<open>2 ^ 53\<close>, \<open>X\<close> for \<open>2 ^ e\<close>.\<close>

lemma round_below_top:
  fixes a X K :: int
  assumes X: "0 < X" "even X" and lo: "0 \<le> a" and hi: "a < K * X - X div 2"
  shows "round_half_even a X * X < K * X"
proof -
  have X2: "2 * (X div 2) = X" using X(2) by simp
  have q: "a div X < K"
    using X(1) by (rule div_hi) (use hi X2 X(1) in linarith)
  show ?thesis
  proof (cases "a div X = K - 1")
    case True
    have "a mod X = a - (K - 1) * X"
      using True by (metis minus_div_mult_eq_mod)
    then have "2 * (a mod X) < X" using hi X2 by (simp add: algebra_simps)
    then have "round_half_even a X = a div X"
      by (simp add: round_half_even_def Let_def)
    then show ?thesis using True X(1) by simp
  next
    case False
    then have "a div X + 1 \<le> K - 1" using q by linarith
    then have "round_half_even a X \<le> K - 1"
      using round_half_even_bounds(2) [of a X] by linarith
    then have "round_half_even a X * X \<le> (K - 1) * X"
      using X(1) by (simp add: mult_right_mono)
    moreover have "(K - 1) * X < K * X" using X(1) by (simp add: algebra_simps)
    ultimately show ?thesis by linarith
  qed
qed

lemma round_to_top:
  fixes a X K :: int
  assumes X: "0 < X" "even X" and K: "even K"
    and lo: "K * X - X div 2 \<le> a" and hi: "a < K * X"
  shows "round_half_even a X * X = K * X"
proof -
  have X2: "2 * (X div 2) = X" using X(2) by simp
  have lo': "(K - 1) * X \<le> a" using lo X2 X(1) by (simp add: algebra_simps)
  have hi': "a < (K - 1 + 1) * X" using hi by simp
  have q: "a div X = K - 1" and r: "a mod X = a - (K - 1) * X"
    using div_mod_eq [OF X(1) lo' hi'] by simp_all
  have "X \<le> 2 * (a mod X)" using r lo X2 by (simp add: algebra_simps)
  moreover have "odd (a div X)" using q K by simp
  ultimately have "round_half_even a X = K"
    using q by (auto simp: round_half_even_def Let_def)
  then show ?thesis by simp
qed


text \<open>Overflow of the rounded value past \<open>2 ^ E\<close>, for \<open>E = 54 + d\<close>.\<close>

lemma round53_lower:
  assumes "0 < a"
  shows "2 ^ (bit_length (nat a) - 1) \<le> round53 a"
proof (cases "bit_length (nat a) \<le> 53")
  case True
  then have "bit_length (nat a) - 53 = 0" by simp
  then have "round53 a = a" by (simp add: round53_def round_half_even_one)
  then show ?thesis using bit_length_int_bounds(1) [OF assms] by simp
next
  case False
  define e where "e = bit_length (nat a) - 53"
  define K :: int where "K = 2 ^ 52"
  have b: "bit_length (nat a) - 1 = 52 + e" using False by (simp add: e_def)
  have eq: "(2::int) ^ (bit_length (nat a) - 1) = K * 2 ^ e"
    unfolding b K_def by (rule power_add)
  have r: "round53 a = round_half_even a (2 ^ e) * 2 ^ e"
    by (simp only: round53_def Let_def e_def)
  have X: "(0::int) < 2 ^ e" by simp
  have "K * 2 ^ e \<le> a"
    using bit_length_int_bounds(1) [OF assms] eq by simp
  then have "K \<le> a div 2 ^ e" using X by (intro div_lo)
  then have "K \<le> round_half_even a (2 ^ e)"
    using round_half_even_bounds(1) [of a "2 ^ e"] by linarith
  then have "K * 2 ^ e \<le> round_half_even a (2 ^ e) * 2 ^ e"
    by (intro mult_right_mono) simp_all
  then show ?thesis unfolding eq r .
qed

lemma round53_upper:
  assumes "0 < a"
  shows "round53 a \<le> 2 ^ bit_length (nat a)"
proof (cases "bit_length (nat a) \<le> 53")
  case True
  then have "bit_length (nat a) - 53 = 0" by simp
  then have "round53 a = a" by (simp add: round53_def round_half_even_one)
  then show ?thesis using bit_length_int_bounds(2) [OF assms] by simp
next
  case False
  define e where "e = bit_length (nat a) - 53"
  define K :: int where "K = 2 ^ 53"
  have b: "bit_length (nat a) = 53 + e" using False by (simp add: e_def)
  have eq: "(2::int) ^ bit_length (nat a) = K * 2 ^ e"
    unfolding b K_def by (rule power_add)
  have r: "round53 a = round_half_even a (2 ^ e) * 2 ^ e"
    by (simp only: round53_def Let_def e_def)
  have X: "(0::int) < 2 ^ e" by simp
  have "a < K * 2 ^ e"
    using bit_length_int_bounds(2) [OF assms] eq by simp
  then have "a div 2 ^ e < K" using X by (intro div_hi)
  then have "round_half_even a (2 ^ e) \<le> K"
    using round_half_even_bounds(2) [of a "2 ^ e"] by linarith
  then have "round_half_even a (2 ^ e) * 2 ^ e \<le> K * 2 ^ e"
    by (intro mult_right_mono) simp_all
  then show ?thesis unfolding eq r .
qed

text \<open>
  The rounded value reaches \<open>2 ^ (54 + d)\<close> exactly from half a unit in the last place
  below it.
\<close>

lemma round53_reaches:
  fixes a :: int
  assumes "0 < a"
  shows "2 ^ (54 + d) \<le> round53 a \<longleftrightarrow> 2 ^ (54 + d) - 2 ^ d \<le> a"
proof -
  define e where "e = Suc d"
  define K :: int where "K = 2 ^ 53"
  define X :: int where "X = 2 ^ e"
  have X: "0 < X" "even X" by (simp_all add: X_def e_def)
  have K: "even K" by (simp add: K_def)
  have top: "(2::int) ^ (54 + d) = K * X"
  proof -
    have "(54 + d) = 53 + e" by (simp add: e_def)
    then show ?thesis unfolding K_def X_def by (simp only: power_add)
  qed
  have half: "(2::int) ^ d = X div 2" by (simp add: X_def e_def)
  have below: "2 ^ (52 + e) = (2::int) ^ (53 + d)" by (simp add: e_def)
  show ?thesis
  proof (cases "2 ^ (54 + d) \<le> a")
    case True
    then have "(2::int) ^ (54 + d) < 2 ^ bit_length (nat a)"
      using bit_length_int_bounds(2) [OF assms] by linarith
    then have "54 + d < bit_length (nat a)"
      by (rule power_less_imp_less_exp [rotated]) simp
    then have "54 + d \<le> bit_length (nat a) - 1" by simp
    then have "(2::int) ^ (54 + d) \<le> 2 ^ (bit_length (nat a) - 1)"
      by (intro power_increasing) simp_all
    then have "2 ^ (54 + d) \<le> round53 a"
      using round53_lower [OF assms] by linarith
    moreover have "2 ^ (54 + d) - 2 ^ d \<le> a"
      using True by (smt (verit) zero_less_power)
    ultimately show ?thesis by simp
  next
    case False
    then have hi: "a < K * X" unfolding top by simp
    show ?thesis
    proof (cases "2 ^ (53 + d) \<le> a")
      case low: True
      have e1: "52 + e = 53 + d" and e2: "53 + e = 54 + d" by (simp_all add: e_def)
      have "a < 2 ^ (54 + d)" using False by simp
      then have "round53 a = round_half_even a (2 ^ e) * 2 ^ e"
        using low by (intro round53_unfold) (simp_all only: e1 e2)
      then have r: "round53 a = round_half_even a X * X" by (simp only: X_def)
      show ?thesis
      proof (cases "K * X - X div 2 \<le> a")
        case True
        then have "round_half_even a X * X = K * X"
          using X K hi by (intro round_to_top)
        then have "K * X \<le> round_half_even a X * X" by (simp only: order_refl)
        then show ?thesis using True unfolding r top half by (simp only:)
      next
        case False
        then have "round_half_even a X * X < K * X"
          using X assms by (intro round_below_top) simp_all
        then have "\<not> K * X \<le> round_half_even a X * X" by (simp only: not_le)
        then show ?thesis using False unfolding r top half by (simp only:)
      qed
    next
      case high: False
      then have "(2::int) ^ (bit_length (nat a) - 1) < 2 ^ (53 + d)"
        using bit_length_int_bounds(1) [OF assms] by linarith
      then have "bit_length (nat a) - 1 < 53 + d"
        by (rule power_less_imp_less_exp [rotated]) simp
      then have "bit_length (nat a) \<le> 53 + d" by simp
      then have "(2::int) ^ bit_length (nat a) \<le> 2 ^ (53 + d)"
        by (intro power_increasing) simp_all
      then have 1: "round53 a \<le> 2 ^ (53 + d)"
        using round53_upper [OF assms] by linarith
      have "54 + d = Suc (53 + d)" by simp
      then have 2: "(2::int) ^ (54 + d) = 2 * 2 ^ (53 + d)" by (simp only: power_Suc)
      have 3: "(2::int) ^ d \<le> 2 ^ (53 + d)" by (intro power_increasing) simp_all
      have "(0::int) < 2 ^ (53 + d)" by simp
      then have "\<not> 2 ^ (54 + d) \<le> round53 a" using 1 unfolding 2 by linarith
      moreover have "\<not> 2 ^ (54 + d) - 2 ^ d \<le> a" using high 3 unfolding 2 by linarith
      ultimately show ?thesis by simp
    qed
  qed
qed


lemma true_div_pow2_overflow:
  assumes "0 < a"
  shows "true_div_pow2 a k = Inl OverflowError \<longleftrightarrow> 2 ^ (1024 + k) - 2 ^ (970 + k) \<le> a"
proof -
  have e: "1024 + k = 54 + (970 + k)" by simp
  have "2 ^ (1024 + k) \<le> round53 a \<longleftrightarrow> 2 ^ (1024 + k) - 2 ^ (970 + k) \<le> a"
    unfolding e by (rule round53_reaches [OF assms])
  then show ?thesis by (simp add: true_div_pow2_def Let_def)
qed

lemma true_div_pow2_value:
  assumes "0 < a" and "a < 2 ^ (1024 + k) - 2 ^ (970 + k)"
  shows "true_div_pow2 a k = Inr (round53 a, k)"
proof -
  have "true_div_pow2 a k \<noteq> Inl OverflowError"
    using true_div_pow2_overflow [OF assms(1), of k] assms(2) by simp
  then show ?thesis by (simp add: true_div_pow2_def Let_def split: if_splits)
qed

lemma true_div_pow2_exact:
  assumes "0 < a" and "a < 2 ^ 53"
  shows "true_div_pow2 a k = Inr (a, k)"
proof -
  have r: "round53 a = a" using assms by (rule round53_exact)
  have "(2::int) ^ 53 \<le> 2 ^ (1024 + k)" by (intro power_increasing) simp_all
  then have "\<not> 2 ^ (1024 + k) \<le> a" using assms(2) by linarith
  then show ?thesis by (simp add: true_div_pow2_def Let_def r)
qed

lemma format_size_GB:
  assumes "2 ^ 30 \<le> kb * 1024"
  shows "format_size kb =
    (case true_div_pow2 (kb * 1024) 30 of
       Inl err \<Rightarrow> Inl err
     | Inr q \<Rightarrow> Inr (fmt_1f q @ ascii '' '' @ ascii ''GB''))"
proof -
  have "kb \<noteq> 0" using assms by auto
  then show ?thesis using assms by (simp add: format_size_def units_def)
qed

lemma format_size_MB:
  assumes "2 ^ 20 \<le> kb * 1024" and "kb * 1024 < 2 ^ 30"
  shows "format_size kb = Inr (fmt_1f (kb * 1024, 20) @ ascii '' '' @ ascii ''MB'')"
proof -
  have "kb \<noteq> 0" using assms by auto
  moreover have "true_div_pow2 (kb * 1024) 20 = Inr (kb * 1024, 20)"
    using assms by (intro true_div_pow2_exact) simp_all
  ultimately show ?thesis using assms by (simp add: format_size_def units_def)
qed

lemma format_size_KB:
  assumes "2 ^ 10 \<le> kb * 1024" and "kb * 1024 < 2 ^ 20"
  shows "format_size kb = Inr (fmt_1f (kb * 1024, 10) @ ascii '' '' @ ascii ''KB'')"
proof -
  have "kb \<noteq> 0" using assms by auto
  moreover have "true_div_pow2 (kb * 1024) 10 = Inr (kb * 1024, 10)"
    using assms by (intro true_div_pow2_exact) simp_all
  ultimately show ?thesis using assms by (simp add: format_size_def units_def)
qed

lemma format_size_negative:
  assumes "kb < 0"
  shows "format_size kb = Inr (str_int (kb * 1024) @ ascii '' B'')"
  using assms by (simp add: format_size_def units_def)


lemma overflow_bound_kb:
  "2 ^ (1024 + 30) - 2 ^ (970 + 30) \<le> kb * 1024 \<longleftrightarrow> 2 ^ 1044 - 2 ^ 990 \<le> (kb::int)"
proof -
  have 1: "(2::int) ^ (1024 + 30) = 2 ^ 1044 * 2 ^ 10" by (simp only: power_add [symmetric]) simp
  have 2: "(2::int) ^ (970 + 30) = 2 ^ 990 * 2 ^ 10" by (simp only: power_add [symmetric]) simp
  have 3: "(2::int) ^ 10 = 1024" by simp
  have "(2 ^ 1044 - 2 ^ 990) * 1024 \<le> kb * 1024 \<longleftrightarrow> 2 ^ 1044 - 2 ^ 990 \<le> kb"
    by (rule mult_le_cancel_right_pos) simp
  then show ?thesis unfolding 1 2 3 by (simp only: left_diff_distrib)
qed

lemma format_size_overflow:
  assumes "0 < kb"
  shows "format_size kb = Inl OverflowError \<longleftrightarrow> 2 ^ 1044 - 2 ^ 990 \<le> kb"
proof (cases "2 ^ 30 \<le> kb * 1024")
  case True
  have pos: "0 < kb * 1024" using assms by simp
  have "format_size kb = Inl OverflowError \<longleftrightarrow> true_div_pow2 (kb * 1024) 30 = Inl OverflowError"
    unfolding format_size_GB [OF True] by (simp split: sum.splits add: true_div_pow2_def Let_def)
  then show ?thesis
    unfolding true_div_pow2_overflow [OF pos] overflow_bound_kb .
next
  case False
  have big: "(2::int) ^ 30 \<le> 2 ^ 1044 - 2 ^ 990"
  proof -
    define X Y Z :: int where "X = 2 ^ 1044" and "Y = 2 ^ 990" and "Z = 2 ^ 30"
    have "(2::int) ^ Suc 990 \<le> 2 ^ 1044" by (intro power_increasing) simp_all
    then have "2 * Y \<le> X" unfolding X_def Y_def by (simp only: power_Suc)
    moreover have "Z \<le> Y" unfolding Y_def Z_def by (intro power_increasing) simp_all
    ultimately have "Z \<le> X - Y" by linarith
    then show ?thesis unfolding X_def Y_def Z_def .
  qed
  have lt: "kb * 1024 < 2 ^ 30" using False by simp
  have "format_size kb \<noteq> Inl OverflowError"
  proof (cases "2 ^ 20 \<le> kb * 1024")
    case True
    then show ?thesis using format_size_MB [OF True lt] by simp
  next
    case False
    then have lt': "kb * 1024 < 2 ^ 20" by simp
    have "2 ^ 10 \<le> kb * 1024" using assms by simp
    then show ?thesis using format_size_KB [OF _ lt'] by simp
  qed
  moreover have "\<not> 2 ^ 1044 - 2 ^ 990 \<le> kb" using big lt assms by linarith
  ultimately show ?thesis by simp
qed

lemma py_digits_nonempty: "py_digits n \<noteq> []"
  by (subst py_digits.simps) simp

lemma py_digits_digit: "n < 10 \<Longrightarrow> py_digits n = [48 + n]"
  by (subst py_digits.simps) simp

lemma fmt_1f_one_decimal:
  "fmt_1f (m, k) =
     py_digits (nat (round_half_even (10 * m) (2 ^ k) div 10)) @ ascii ''.'' @
     [48 + nat (round_half_even (10 * m) (2 ^ k) mod 10)]"
proof -
  have "nat (round_half_even (10 * m) (2 ^ k) mod 10) < 10" by simp
  then show ?thesis by (simp add: fmt_1f_def Let_def py_digits_digit)
qed

lemma fmt_1f_length: "3 \<le> length (fmt_1f q)"
proof -
  have "1 \<le> length (py_digits n)" for n
    using py_digits_nonempty [of n] by (cases "py_digits n") simp_all
  then show ?thesis
    by (cases q) (simp add: fmt_1f_one_decimal ascii_def Suc_le_eq)
qed

lemma format_size_positive:
  assumes "0 < kb"
  shows "format_size kb = Inl OverflowError \<or>
    (\<exists>q u. u \<in> {ascii ''KB'', ascii ''MB'', ascii ''GB''} \<and>
       format_size kb = Inr (fmt_1f q @ ascii '' '' @ u))"
proof -
  have kb10: "2 ^ 10 \<le> kb * 1024" using assms by simp
  consider "2 ^ 30 \<le> kb * 1024" | "2 ^ 20 \<le> kb * 1024" "kb * 1024 < 2 ^ 30"
    | "kb * 1024 < 2 ^ 20" by linarith
  then show ?thesis
  proof cases
    case 1
    show ?thesis
    proof (cases "true_div_pow2 (kb * 1024) 30")
      case (Inl err)
      then have "err = OverflowError"
        by (simp add: true_div_pow2_def Let_def split: if_splits)
      then show ?thesis using Inl format_size_GB [OF 1] by simp
    next
      case (Inr q)
      then have "format_size kb = Inr (fmt_1f q @ ascii '' '' @ ascii ''GB'')"
        using format_size_GB [OF 1] by simp
      then show ?thesis by blast
    qed
  next
    case 2
    then show ?thesis using format_size_MB by blast
  next
    case 3
    then show ?thesis using format_size_KB [OF kb10] by blast
  qed
qed


lemma format_size_zero_iff: "format_size kb = Inr (ascii ''0 B'') \<longleftrightarrow> kb = 0"
proof
  assume eq: "format_size kb = Inr (ascii ''0 B'')"
  show "kb = 0"
  proof (rule ccontr)
    assume nz: "kb \<noteq> 0"
    show False
    proof (cases "kb < 0")
      case True
      have "str_int (kb * 1024) = 45 # py_digits (nat (- (kb * 1024)))"
        using True by (simp add: str_int_def)
      then show False using eq format_size_negative [OF True] by (simp add: ascii_def)
    next
      case False
      then have "0 < kb" using nz by simp
      from format_size_positive [OF this] eq obtain q u where
        "ascii ''0 B'' = fmt_1f q @ ascii '' '' @ u" by auto
      then have "length (ascii ''0 B'') = length (fmt_1f q) + length (ascii '' '' @ u)"
        by (metis length_append)
      then show False using fmt_1f_length [of q] by (simp add: ascii_def)
    qed
  qed
next
  assume "kb = 0"
  then show "format_size kb = Inr (ascii ''0 B'')" by (simp add: format_size_def)
qed

lemma unit_not_bytes:
  assumes "u \<in> {ascii ''KB'', ascii ''MB'', ascii ''GB''}"
  shows "xs @ ascii '' '' @ u \<noteq> ys @ ascii '' B''"
proof
  assume "xs @ ascii '' '' @ u = ys @ ascii '' B''"
  then have "rev (xs @ ascii '' '' @ u) = rev (ys @ ascii '' B'')" by simp
  then show False using assms by (auto simp: ascii_def)
qed

lemma format_size_samples:
  "format_size 100 = Inr (ascii ''100.0 KB'')"
  "format_size 2048 = Inr (ascii ''2.0 MB'')"
  "format_size 3145728 = Inr (ascii ''3.0 GB'')"
  by (simp_all add: format_size_def units_def true_div_pow2_def round53_def fmt_1f_def
      round_half_even_def ascii_def py_digits.simps bit_length.simps Let_def)

text \<open>
  Claim C6, as stated: every nonzero input is rendered with the largest unit among GB,
  MB and KB whose threshold it meets. For \<open>2 ^ 1044\<close> kilobytes the GB threshold is met
  and nothing is rendered: the quotient \<open>size_b / threshold\<close> is \<open>2 ^ 1024\<close>, beyond the
  largest double, and the division raises \<open>OverflowError\<close>.
\<close>

theorem format_size_overflow_counterexample:
  "(2::int) ^ 1044 \<noteq> 0 \<and> 2 ^ 30 \<le> (2::int) ^ 1044 * 1024 \<and>
   format_size (2 ^ 1044) = Inl OverflowError"
proof -
  have "(0::int) < 2 ^ 1044" by simp
  moreover have "(2::int) ^ 30 \<le> 2 ^ 1044" by (intro power_increasing) simp_all
  moreover have "(2::int) ^ 1044 - 2 ^ 990 \<le> 2 ^ 1044" by simp
  ultimately show ?thesis using format_size_overflow [of "2 ^ 1044"] by simp
qed

text \<open>
  Claim C6, amended: \<open>format_size\<close> returns \<open>0 B\<close> exactly when its input is 0. A
  nonzero input is rendered with the largest unit among GB, MB and KB whose threshold
  its byte value meets, as the quotient (a double) rounded to one decimal place
  (\<open>fmt_1f\<close>), as long as the quotient is in the range of a double, which is the case
  below \<open>2 ^ 1044 - 2 ^ 990\<close> kilobytes; from there on the division of the GB branch
  raises \<open>OverflowError\<close>. A negative input meets no threshold and is rendered as its
  byte count with the unit B. In particular 100 gives \<open>100.0 KB\<close>, 2048 gives
  \<open>2.0 MB\<close> and 3145728 gives \<open>3.0 GB\<close>.
\<close>

theorem format_size_units:
  "(format_size kb = Inr (ascii ''0 B'') \<longleftrightarrow> kb = 0) \<and>
   (2 ^ 30 \<le> kb * 1024 \<and> kb < 2 ^ 1044 - 2 ^ 990 \<longrightarrow>
      format_size kb = Inr (fmt_1f (round53 (kb * 1024), 30) @ ascii '' GB'')) \<and>
   (2 ^ 1044 - 2 ^ 990 \<le> kb \<longrightarrow> format_size kb = Inl OverflowError) \<and>
   (2 ^ 20 \<le> kb * 1024 \<and> kb * 1024 < 2 ^ 30 \<longrightarrow>
      format_size kb = Inr (fmt_1f (kb * 1024, 20) @ ascii '' MB'')) \<and>
   (2 ^ 10 \<le> kb * 1024 \<and> kb * 1024 < 2 ^ 20 \<longrightarrow>
      format_size kb = Inr (fmt_1f (kb * 1024, 10) @ ascii '' KB'')) \<and>
   (kb < 0 \<longrightarrow> format_size kb = Inr (str_int (kb * 1024) @ ascii '' B'')) \<and>
   format_size 100 = Inr (ascii ''100.0 KB'') \<and>
   format_size 2048 = Inr (ascii ''2.0 MB'') \<and>
   format_size 3145728 = Inr (ascii ''3.0 GB'')"
proof (intro conjI impI)
  show "format_size kb = Inr (ascii ''0 B'') \<longleftrightarrow> kb = 0"
    by (rule format_size_zero_iff)
next
  assume a: "2 ^ 30 \<le> kb * 1024 \<and> kb < 2 ^ 1044 - 2 ^ 990"
  then have pos: "0 < kb * 1024" by (smt (verit) zero_less_power)
  have "kb * 1024 < 2 ^ (1024 + 30) - 2 ^ (970 + 30)"
    using a overflow_bound_kb [of kb] by linarith
  then have "true_div_pow2 (kb * 1024) 30 = Inr (round53 (kb * 1024), 30)"
    using pos by (intro true_div_pow2_value)
  then show "format_size kb = Inr (fmt_1f (round53 (kb * 1024), 30) @ ascii '' GB'')"
    using a format_size_GB [of kb] by (simp add: ascii_def)
next
  assume a: "2 ^ 1044 - 2 ^ 990 \<le> kb"
  have "(0::int) < 2 ^ 1044 - 2 ^ 990"
  proof -
    have "(2::int) ^ 990 < 2 ^ 1044" by (intro power_strict_increasing) simp_all
    then show ?thesis by simp
  qed
  then have "0 < kb" using a by linarith
  then show "format_size kb = Inl OverflowError" using a format_size_overflow by blast
next
  assume "2 ^ 20 \<le> kb * 1024 \<and> kb * 1024 < 2 ^ 30"
  then show "format_size kb = Inr (fmt_1f (kb * 1024, 20) @ ascii '' MB'')"
    using format_size_MB [of kb] by (simp add: ascii_def)
next
  assume "2 ^ 10 \<le> kb * 1024 \<and> kb * 1024 < 2 ^ 20"
  then show "format_size kb = Inr (fmt_1f (kb * 1024, 10) @ ascii '' KB'')"
    using format_size_KB [of kb] by (simp add: ascii_def)
next
  assume "kb < 0"
  then show "format_size kb = Inr (str_int (kb * 1024) @ ascii '' B'')"
    by (rule format_size_negative)
qed (rule format_size_samples)+

theorem format_size_units_witness:
  "format_size 0 = Inr (ascii ''0 B'') \<and>
   format_size 4194304 = Inr (ascii ''4.0 GB'') \<and>
   format_size (2 ^ 1044) = Inl OverflowError \<and>
   format_size 1536 = Inr (ascii ''1.5 MB'') \<and>
   format_size 5 = Inr (ascii ''5.0 KB'') \<and>
   format_size (- 1) = Inr (ascii ''-1024 B'')"
proof -
  have big: "(4194304::int) < 2 ^ 1044 - 2 ^ 990"
  proof -
    have "(2::int) ^ Suc 990 \<le> 2 ^ 1044" by (intro power_increasing) simp_all
    moreover have "(2::int) ^ 23 \<le> 2 ^ 990" by (intro power_increasing) simp_all
    ultimately show ?thesis by (simp only: power_Suc) simp
  qed
  have r: "round53 (4194304 * 1024) = 4194304 * 1024"
    by (rule round53_exact) simp_all
  have ev: "fmt_1f (4194304 * 1024, 30) = ascii ''4.0''" "fmt_1f (1536 * 1024, 20) = ascii ''1.5''"
    "fmt_1f (5 * 1024, 10) = ascii ''5.0''" "str_int (- 1 * 1024) = ascii ''-1024''"
    by (simp_all add: fmt_1f_def round_half_even_def str_int_def py_digits.simps ascii_def)
  show ?thesis
    using format_size_units [of 0] format_size_units [of 4194304] format_size_units [of "2 ^ 1044"]
      format_size_units [of 1536] format_size_units [of 5] format_size_units [of "- 1"] big r ev
    by (simp add: ascii_def)
qed


text \<open>
  Claim C10, as stated: for every \<open>size_kb \<ge> 1\<close> the function returns a string whose
  unit is KB, MB or GB. For \<open>2 ^ 1050\<close> kilobytes it returns no string: the division of
  the GB branch raises \<open>OverflowError\<close>.
\<close>

theorem format_size_huge_counterexample:
  "(1::int) \<le> 2 ^ 1050 \<and> format_size (2 ^ 1050) = Inl OverflowError"
proof -
  have "(0::int) < 2 ^ 1050" by simp
  moreover have "(2::int) ^ 1044 \<le> 2 ^ 1050" by (intro power_increasing) simp_all
  then have "(2::int) ^ 1044 - 2 ^ 990 \<le> 2 ^ 1050" by (smt (verit) zero_less_power)
  moreover have "(1::int) \<le> 2 ^ 1050" by simp
  ultimately show ?thesis using format_size_overflow [of "2 ^ 1050"] by simp
qed

text \<open>
  Claim C10, amended: for every \<open>size_kb \<ge> 1\<close> the byte value is at least 1024, so the
  KB threshold is met and the final branch, which would return the byte count with the
  unit B, is not taken: the result is never that string. The function raises
  \<open>OverflowError\<close> exactly from \<open>2 ^ 1044 - 2 ^ 990\<close> kilobytes on, and below that it
  returns a string whose unit is KB, MB or GB.
\<close>

theorem format_size_never_bytes:
  assumes "1 \<le> kb"
  shows "2 ^ 10 \<le> kb * 1024 \<and>
    format_size kb \<noteq> Inr (str_int (kb * 1024) @ ascii '' B'') \<and>
    (format_size kb = Inl OverflowError \<longleftrightarrow> 2 ^ 1044 - 2 ^ 990 \<le> kb) \<and>
    (kb < 2 ^ 1044 - 2 ^ 990 \<longrightarrow>
       (\<exists>q u. u \<in> {ascii ''KB'', ascii ''MB'', ascii ''GB''} \<and>
          format_size kb = Inr (fmt_1f q @ ascii '' '' @ u)))"
proof -
  have pos: "0 < kb" using assms by simp
  have ov: "format_size kb = Inl OverflowError \<longleftrightarrow> 2 ^ 1044 - 2 ^ 990 \<le> kb"
    using pos by (rule format_size_overflow)
  have shape: "format_size kb = Inl OverflowError \<or>
    (\<exists>q u. u \<in> {ascii ''KB'', ascii ''MB'', ascii ''GB''} \<and>
       format_size kb = Inr (fmt_1f q @ ascii '' '' @ u))"
    using pos by (rule format_size_positive)
  have "format_size kb \<noteq> Inr (str_int (kb * 1024) @ ascii '' B'')"
  proof
    assume eq: "format_size kb = Inr (str_int (kb * 1024) @ ascii '' B'')"
    then have "format_size kb \<noteq> Inl OverflowError" by simp
    with shape obtain q u where u: "u \<in> {ascii ''KB'', ascii ''MB'', ascii ''GB''}"
      and fs: "format_size kb = Inr (fmt_1f q @ ascii '' '' @ u)" by blast
    have "fmt_1f q @ ascii '' '' @ u = str_int (kb * 1024) @ ascii '' B''"
      using eq fs by (simp only: sum.inject)
    then show False using unit_not_bytes [OF u] by blast
  qed
  moreover have "2 ^ 10 \<le> kb * 1024" using assms by simp
  moreover have "kb < 2 ^ 1044 - 2 ^ 990 \<longrightarrow>
       (\<exists>q u. u \<in> {ascii ''KB'', ascii ''MB'', ascii ''GB''} \<and>
          format_size kb = Inr (fmt_1f q @ ascii '' '' @ u))"
    using shape ov by auto
  ultimately show ?thesis using ov by blast
qed

theorem format_size_never_bytes_witness:
  "(1::int) \<le> 1 \<and> format_size 1 = Inr (ascii ''1.0 KB'') \<and>
   format_size 1 \<noteq> Inr (ascii ''1024 B'')"
proof -
  have ev: "format_size 1 = Inr (ascii ''1.0 KB'')" "str_int (1 * 1024) = ascii ''1024''"
    by (simp_all add: format_size_def units_def true_div_pow2_def round53_def fmt_1f_def
      round_half_even_def ascii_def py_digits.simps bit_length.simps str_int_def Let_def)
  show ?thesis using format_size_never_bytes [of 1] ev by (simp add: ascii_def)
qed

section \<open>Properties of the delete workflow\<close>

lemma list_all_update:
  "list_all P es \<Longrightarrow> (t < length es \<Longrightarrow> P v) \<Longrightarrow> list_all P (es[t := v])"
  by (cases "t < length es") (auto simp: list_all_length nth_list_update)

lemma begin_delete_length [simp]: "length (begin_delete ts es) = length es"
  by (induction ts arbitrary: es) simp_all

lemma delete_loop_length [simp]: "length (delete_loop fs k ts es) = length es"
  by (induction ts arbitrary: es k) simp_all

lemma begin_delete_all:
  assumes "list_all P es"
    and "\<And>e. P e \<Longrightarrow> P (e\<lparr>status := ascii ''Deleting...'', marked := False\<rparr>)"
  shows "list_all P (begin_delete ts es)"
  using assms(1)
proof (induction ts arbitrary: es)
  case Nil
  then show ?case by simp
next
  case (Cons t ts)
  have "list_all P (es[t := (es ! t)\<lparr>status := ascii ''Deleting...'', marked := False\<rparr>])"
    using Cons.prems assms(2) by (intro list_all_update) (simp_all add: list_all_length)
  then show ?case using Cons.IH by simp
qed

lemma delete_loop_all:
  assumes "list_all P es"
    and "\<And>e err. P e \<Longrightarrow> P (record_outcome err e)"
  shows "list_all P (delete_loop fs k ts es)"
  using assms(1)
proof (induction ts arbitrary: es k)
  case Nil
  then show ?case by simp
next
  case (Cons t ts)
  have "list_all P (es[t := record_outcome (delete_entry (fs k) (es ! t)) (es ! t)])"
    using Cons.prems assms(2) by (intro list_all_update) (simp_all add: list_all_length)
  then show ?case using Cons.IH by simp
qed

lemma begin_delete_nth:
  assumes "distinct ts" and "j < length es"
  shows "begin_delete ts es ! j =
    (if j \<in> set ts then (es ! j)\<lparr>status := ascii ''Deleting...'', marked := False\<rparr>
     else es ! j)"
  using assms
proof (induction ts arbitrary: es)
  case Nil
  then show ?case by simp
next
  case (Cons t ts)
  let ?es = "es[t := (es ! t)\<lparr>status := ascii ''Deleting...'', marked := False\<rparr>]"
  have "begin_delete (t # ts) es ! j = begin_delete ts ?es ! j" by simp
  also have "\<dots> = (if j \<in> set ts
      then (?es ! j)\<lparr>status := ascii ''Deleting...'', marked := False\<rparr> else ?es ! j)"
    using Cons.prems by (intro Cons.IH) simp_all
  finally have *: "begin_delete (t # ts) es ! j = (if j \<in> set ts
      then (?es ! j)\<lparr>status := ascii ''Deleting...'', marked := False\<rparr> else ?es ! j)" .
  have ne: "j \<in> set ts \<Longrightarrow> j \<noteq> t" using Cons.prems(1) by auto
  show ?case
  proof (cases "j \<in> set ts")
    case True
    then show ?thesis using * ne by simp
  next
    case False
    then show ?thesis using * Cons.prems(2) by (cases "j = t") simp_all
  qed
qed

lemma delete_loop_other:
  assumes "j \<notin> set ts"
  shows "delete_loop fs k ts es ! j = es ! j"
  using assms by (induction ts arbitrary: es k) (auto simp: nth_list_update)

lemma delete_loop_nth:
  assumes "distinct ts" and "i < length ts" and "ts ! i < length es"
  shows "delete_loop fs k ts es ! (ts ! i) =
    record_outcome (delete_entry (fs (k + i)) (es ! (ts ! i))) (es ! (ts ! i))"
  using assms
proof (induction ts arbitrary: es k i)
  case Nil
  then show ?case by simp
next
  case (Cons t ts)
  let ?es = "es[t := record_outcome (delete_entry (fs k) (es ! t)) (es ! t)]"
  show ?case
  proof (cases i)
    case 0
    then have "delete_loop fs k (t # ts) es ! ((t # ts) ! i) = delete_loop fs (Suc k) ts ?es ! t"
      by simp
    also have "\<dots> = ?es ! t" using Cons.prems(1) by (intro delete_loop_other) simp
    finally show ?thesis using Cons.prems(3) 0 by simp
  next
    case (Suc i')
    then have i': "i' < length ts" and lt: "ts ! i' < length ?es" and ne: "ts ! i' \<noteq> t"
      using Cons.prems by auto
    have "delete_loop fs k (t # ts) es ! ((t # ts) ! i) = delete_loop fs (Suc k) ts ?es ! (ts ! i')"
      using Suc by simp
    also have "\<dots> = record_outcome (delete_entry (fs (Suc k + i')) (?es ! (ts ! i'))) (?es ! (ts ! i'))"
      using Cons.prems(1) i' lt by (intro Cons.IH) simp_all
    finally show ?thesis using Suc ne by (simp add: nth_list_update)
  qed
qed

lemma delete_targets_props:
  assumes "delete_targets es sel = Inr ts"
  shows "distinct ts" and "\<forall>t\<in>set ts. t < length es \<and> \<not> deleted (es ! t)"
proof -
  let ?m = "filter (\<lambda>i. marked (es ! i) \<and> \<not> deleted (es ! i)) [0..<length es]"
  have "distinct ts \<and> (\<forall>t\<in>set ts. t < length es \<and> \<not> deleted (es ! t))"
  proof (cases "?m = []")
    case False
    then have "ts = ?m" using assms by (simp add: delete_targets_def Let_def)
    then show ?thesis by auto
  next
    case True
    then obtain p where p: "py_position es sel = Inr p"
      and ts: "ts = (if \<not> deleted (es ! p) then [p] else [])"
      using assms by (auto simp: delete_targets_def Let_def split: sum.splits)
    from p have "p < length es"
      by (auto simp: py_position_def Let_def split: if_splits)
    then show ?thesis using ts by auto
  qed
  then show "distinct ts" and "\<forall>t\<in>set ts. t < length es \<and> \<not> deleted (es ! t)" by auto
qed

lemma delete_workflow_confirmed:
  assumes "delete_targets (entries s) (selected s) = Inr ts" and "ts \<noteq> []"
    and "confirm_key inp = ord CHR ''Y'' \<or> confirm_key inp = ord CHR ''y''"
  shows "delete_workflow inp s =
    Inr (s\<lparr>entries := delete_loop (removal inp) 0 ts (begin_delete ts (entries s))\<rparr>)"
  using assms by (simp add: delete_workflow_def)

lemma delete_workflow_cancelled:
  assumes "delete_targets (entries s) (selected s) = Inr ts"
    and "confirm_key inp \<noteq> ord CHR ''Y''" and "confirm_key inp \<noteq> ord CHR ''y''"
  shows "delete_workflow inp s = Inr s"
  using assms by (simp add: delete_workflow_def)

lemma delete_workflow_no_targets:
  assumes "delete_targets (entries s) (selected s) = Inr []"
  shows "delete_workflow inp s = Inr s"
  using assms by (simp add: delete_workflow_def)

text \<open>The record of the \<open>i\<close>-th target after a confirmed delete.\<close>

lemma confirmed_target:
  assumes ts: "delete_targets (entries s) (selected s) = Inr ts" and i: "i < length ts"
    and c: "confirm_key inp = ord CHR ''Y'' \<or> confirm_key inp = ord CHR ''y''"
  shows "\<exists>s'. delete_workflow inp s = Inr s' \<and> selected s' = selected s \<and>
    scroll s' = scroll s \<and> length (entries s') = length (entries s) \<and>
    entries s' ! (ts ! i) =
      record_outcome (delete_entry (removal inp i) (entries s ! (ts ! i)))
        ((entries s ! (ts ! i))\<lparr>status := ascii ''Deleting...'', marked := False\<rparr>)"
proof -
  let ?es = "begin_delete ts (entries s)"
  have d: "distinct ts" and lt: "ts ! i < length (entries s)"
    using delete_targets_props [OF ts] i by auto
  have ne: "ts \<noteq> []" using i by auto
  have b: "?es ! (ts ! i) = (entries s ! (ts ! i))\<lparr>status := ascii ''Deleting...'', marked := False\<rparr>"
    using d lt i by (simp add: begin_delete_nth)
  have "delete_loop (removal inp) 0 ts ?es ! (ts ! i) =
      record_outcome (delete_entry (removal inp (0 + i)) (?es ! (ts ! i))) (?es ! (ts ! i))"
    using d i lt by (intro delete_loop_nth) simp_all
  then have "delete_loop (removal inp) 0 ts ?es ! (ts ! i) =
      record_outcome (delete_entry (removal inp i) (entries s ! (ts ! i)))
        ((entries s ! (ts ! i))\<lparr>status := ascii ''Deleting...'', marked := False\<rparr>)"
    by (simp add: b delete_entry_def)
  then show ?thesis using delete_workflow_confirmed [OF ts ne c] by simp
qed

lemma confirmed_other:
  assumes ts: "delete_targets (entries s) (selected s) = Inr ts" and "ts \<noteq> []"
    and c: "confirm_key inp = ord CHR ''Y'' \<or> confirm_key inp = ord CHR ''y''"
    and j: "j < length (entries s)" "j \<notin> set ts"
  shows "\<exists>s'. delete_workflow inp s = Inr s' \<and> entries s' ! j = entries s ! j"
proof -
  have d: "distinct ts" using delete_targets_props [OF ts] by auto
  have "delete_loop (removal inp) 0 ts (begin_delete ts (entries s)) ! j = entries s ! j"
    using j d by (simp add: delete_loop_other begin_delete_nth)
  then show ?thesis using delete_workflow_confirmed [OF ts assms(2) c] by simp
qed

text \<open>
  Claim C1, as stated: a target whose path no longer exists at deletion time is a
  success and the record receives no error status. With one record, the delete key and
  the confirmation \<open>Y\<close>, a missing path leaves the record with the status
  \<open>Err: Already \<close> (the prefix \<open>Err: \<close> and the first eight characters of
  \<open>Already gone\<close>) and not deleted: \<open>delete_entry\<close> returns the string
  \<open>Already gone\<close>, and \<open>main_loop\<close> takes every non-empty string for an error.
\<close>

theorem vanished_target_counterexample:
  "delete_workflow
     \<lparr>arrivals = [], height = 24, key = ord CHR ''D'', confirm_key = ord CHR ''Y'',
      removal = (\<lambda>k. Missing)\<rparr>
     \<lparr>entries = [sample_entry], selected = 0, scroll = 0\<rparr> =
   Inr \<lparr>entries = [sample_entry\<lparr>status := ascii ''Err: Already ''\<rparr>], selected = 0,
        scroll = 0\<rparr>"
  by (simp add: delete_workflow_def delete_targets_def py_position_def sample_entry_def
      delete_entry_def record_outcome_def ascii_def keys_simps)

text \<open>
  Claim C1, amended: for every target of a confirmed delete whose path no longer exists
  at deletion time, \<open>delete_entry\<close> returns the error string \<open>Already gone\<close>, and the
  delete workflow handles it as a failure: the record gets the status
  \<open>Err: Already \<close>, stays not deleted, keeps its size and label, and has lost its mark.
\<close>

theorem vanished_target_is_error:
  assumes "delete_targets (entries s) (selected s) = Inr ts" and "i < length ts"
    and "confirm_key inp = ord CHR ''Y'' \<or> confirm_key inp = ord CHR ''y''"
    and "removal inp i = Missing"
  shows "delete_entry (removal inp i) (entries s ! (ts ! i)) = Some (ascii ''Already gone'') \<and>
    (\<exists>s'. delete_workflow inp s = Inr s' \<and>
       status (entries s' ! (ts ! i)) = ascii ''Err: Already '' \<and>
       \<not> deleted (entries s' ! (ts ! i)) \<and>
       \<not> marked (entries s' ! (ts ! i)) \<and>
       size_kb (entries s' ! (ts ! i)) = size_kb (entries s ! (ts ! i)) \<and>
       size_human (entries s' ! (ts ! i)) = size_human (entries s ! (ts ! i)))"
proof -
  have nd: "\<not> deleted (entries s ! (ts ! i))"
    using delete_targets_props(2) [OF assms(1)] assms(2) by auto
  from confirmed_target [OF assms(1,2,3)] obtain s' where
    s': "delete_workflow inp s = Inr s'" and
    e': "entries s' ! (ts ! i) =
      record_outcome (delete_entry (removal inp i) (entries s ! (ts ! i)))
        ((entries s ! (ts ! i))\<lparr>status := ascii ''Deleting...'', marked := False\<rparr>)"
    by blast
  have "entries s' ! (ts ! i) =
    (entries s ! (ts ! i))\<lparr>status := ascii ''Err: Already '', marked := False\<rparr>"
    unfolding e' by (simp add: assms(4) delete_entry_def record_outcome_def ascii_def)
  then show ?thesis using s' nd by (simp add: assms(4) delete_entry_def)
qed

theorem vanished_target_is_error_witness:
  "\<exists>s'. delete_workflow
       \<lparr>arrivals = [], height = 24, key = ord CHR ''D'', confirm_key = ord CHR ''y'',
        removal = (\<lambda>k. Missing)\<rparr>
       \<lparr>entries = [sample_entry, sample_entry\<lparr>marked := True\<rparr>], selected = 0, scroll = 0\<rparr>
     = Inr s' \<and>
     status (entries s' ! 1) = ascii ''Err: Already '' \<and> \<not> deleted (entries s' ! 1)"
proof -
  have t: "delete_targets [sample_entry, sample_entry\<lparr>marked := True\<rparr>] 0 = Inr [1]"
    by (simp add: delete_targets_def sample_entry_def upt_rec)
  show ?thesis
    using vanished_target_is_error [of
        "\<lparr>entries = [sample_entry, sample_entry\<lparr>marked := True\<rparr>], selected = 0, scroll = 0\<rparr>"
        "[1]" 0
        "\<lparr>arrivals = [], height = 24, key = ord CHR ''D'', confirm_key = ord CHR ''y'',
          removal = (\<lambda>k. Missing)\<rparr>"] t
    by auto
qed

section \<open>Invariants of the session\<close>

lemma drain_and_clamp_entries [simp]:
  "entries (drain_and_clamp inp s) = entries s @ arrivals inp"
  by (simp add: drain_and_clamp_def Let_def)

lemma py_position_less: "py_position xs i = Inr p \<Longrightarrow> p < length xs"
  by (auto simp: py_position_def Let_def split: if_splits)

lemma mark_current_all:
  assumes all: "list_all P (entries s)"
    and toggle: "\<And>e. P e \<Longrightarrow> \<not> deleted e \<Longrightarrow> P (e\<lparr>marked := \<not> marked e\<rparr>)"
    and res: "mark_current h s = Inr s1"
  shows "list_all P (entries s1)"
proof -
  from res obtain p where p: "py_position (entries s) (selected s) = Inr p"
    by (auto simp: mark_current_def split: sum.splits)
  then have lt: "p < length (entries s)" by (rule py_position_less)
  let ?e = "entries s ! p"
  let ?es = "if \<not> deleted ?e then (entries s)[p := ?e\<lparr>marked := \<not> marked ?e\<rparr>] else entries s"
  have "P ?e" using all lt by (simp add: list_all_length)
  then have "list_all P ?es"
    using all toggle by (auto intro: list_all_update)
  moreover have "entries s1 = ?es"
    using res p by (auto simp: mark_current_def Let_def split: if_splits)
  ultimately show ?thesis by simp
qed

lemma delete_workflow_all:
  assumes all: "list_all P (entries s)"
    and fin: "\<And>e err. P e \<Longrightarrow> \<not> deleted e \<Longrightarrow>
      P (record_outcome err (e\<lparr>status := ascii ''Deleting...'', marked := False\<rparr>))"
    and res: "delete_workflow inp s = Inr s2"
  shows "list_all P (entries s2)"
proof -
  from res obtain ts where ts: "delete_targets (entries s) (selected s) = Inr ts"
    by (auto simp: delete_workflow_def split: sum.splits)
  show ?thesis
  proof (cases "ts \<noteq> [] \<and> (confirm_key inp = ord CHR ''Y'' \<or> confirm_key inp = ord CHR ''y'')")
    case False
    then have "s2 = s" using res ts by (auto simp: delete_workflow_def split: if_splits)
    then show ?thesis using all by simp
  next
    case True
    let ?es = "delete_loop (removal inp) 0 ts (begin_delete ts (entries s))"
    have s2: "entries s2 = ?es"
      using delete_workflow_confirmed [OF ts, of inp] True res by auto
    have d: "distinct ts" and props: "\<forall>t\<in>set ts. t < length (entries s) \<and> \<not> deleted (entries s ! t)"
      using delete_targets_props [OF ts] by auto
    have "P (?es ! j)" if j: "j < length (entries s)" for j
    proof (cases "j \<in> set ts")
      case False
      then have "?es ! j = entries s ! j"
        using j d by (simp add: delete_loop_other begin_delete_nth)
      then show ?thesis using all j by (simp add: list_all_length)
    next
      case True
      then obtain i where i: "i < length ts" "ts ! i = j" by (auto simp: in_set_conv_nth)
      have b: "begin_delete ts (entries s) ! j =
          (entries s ! j)\<lparr>status := ascii ''Deleting...'', marked := False\<rparr>"
        using d j True by (simp add: begin_delete_nth)
      have "?es ! (ts ! i) = record_outcome
          (delete_entry (removal inp (0 + i)) (begin_delete ts (entries s) ! (ts ! i)))
          (begin_delete ts (entries s) ! (ts ! i))"
        using d i j by (intro delete_loop_nth) simp_all
      then have "\<exists>err. ?es ! j =
          record_outcome err ((entries s ! j)\<lparr>status := ascii ''Deleting...'', marked := False\<rparr>)"
        using i(2) b by auto
      moreover have "P (entries s ! j)" "\<not> deleted (entries s ! j)"
        using all j props True by (simp_all add: list_all_length)
      ultimately show ?thesis using fin by auto
    qed
    then show ?thesis unfolding s2 by (simp add: list_all_length)
  qed
qed

lemma iteration_unfold:
  assumes "key inp \<noteq> - 1"
    and "handle_input (key inp) (selected (drain_and_clamp inp s)) (scroll (drain_and_clamp inp s))
        (entries (drain_and_clamp inp s)) (height inp) = (sel, scr, q, d, m)"
  shows "iteration inp s =
    (if q then Quit
     else
       (case (if m \<and> entries (drain_and_clamp inp s) \<noteq> []
              then mark_current (height inp) ((drain_and_clamp inp s)\<lparr>selected := sel, scroll := scr\<rparr>)
              else Inr ((drain_and_clamp inp s)\<lparr>selected := sel, scroll := scr\<rparr>)) of
          Inl err \<Rightarrow> Crash err
        | Inr s1 \<Rightarrow>
            if d \<and> entries s1 \<noteq> [] then
              (case delete_workflow inp s1 of
                 Inl err \<Rightarrow> Crash err
               | Inr s2 \<Rightarrow> Continue s2)
            else Continue s1))"
  using assms unfolding iteration_def Let_def by (simp only: if_False prod.case)

lemma iteration_all:
  assumes all: "list_all P (entries s)" and new: "list_all P (arrivals inp)"
    and toggle: "\<And>e. P e \<Longrightarrow> \<not> deleted e \<Longrightarrow> P (e\<lparr>marked := \<not> marked e\<rparr>)"
    and fin: "\<And>e err. P e \<Longrightarrow> \<not> deleted e \<Longrightarrow>
      P (record_outcome err (e\<lparr>status := ascii ''Deleting...'', marked := False\<rparr>))"
    and res: "iteration inp s = Continue s'"
  shows "list_all P (entries s')"
proof -
  let ?s0 = "drain_and_clamp inp s"
  have all0: "list_all P (entries ?s0)" using all new by simp
  show ?thesis
  proof (cases "key inp = - 1")
    case True
    then have "s' = ?s0" using res by (simp add: iteration_def)
    then show ?thesis using all0 by simp
  next
    case False
    obtain sel scr q d m where
      hi: "handle_input (key inp) (selected ?s0) (scroll ?s0) (entries ?s0) (height inp) =
        (sel, scr, q, d, m)"
      by (metis prod_cases5)
    let ?sa = "?s0\<lparr>selected := sel, scroll := scr\<rparr>"
    let ?marked = "if m \<and> entries ?s0 \<noteq> [] then mark_current (height inp) ?sa else Inr ?sa"
    note it = iteration_unfold [OF False hi]
    have nq: "\<not> q" using res unfolding it by (cases q) simp_all
    obtain s1 where s1: "?marked = Inr s1"
      using res nq unfolding it by (cases ?marked) simp_all
    have rest: "(if d \<and> entries s1 \<noteq> [] then
           (case delete_workflow inp s1 of Inl err \<Rightarrow> Crash err | Inr s2 \<Rightarrow> Continue s2)
         else Continue s1) = Continue s'"
      using res nq unfolding it s1 by simp
    have all1: "list_all P (entries s1)"
    proof (cases "m \<and> entries ?s0 \<noteq> []")
      case True
      then have mc: "mark_current (height inp) ?sa = Inr s1" using s1 by simp
      have "list_all P (entries ?sa)" using all0 by simp
      then show ?thesis using toggle mc by (rule mark_current_all)
    next
      case False
      then have "s1 = ?sa" using s1 by (auto split: if_splits)
      then show ?thesis using all0 by simp
    qed
    show ?thesis
    proof (cases "d \<and> entries s1 \<noteq> []")
      case True
      then obtain s2 where dw: "delete_workflow inp s1 = Inr s2" and "s' = s2"
        using rest by (cases "delete_workflow inp s1") simp_all
      have "list_all P (entries s2)" using all1 fin dw by (rule delete_workflow_all)
      then show ?thesis using \<open>s' = s2\<close> by simp
    next
      case False
      then have "s' = s1" using rest by (auto split: if_splits)
      then show ?thesis using all1 by simp
    qed
  qed
qed

lemma scanner_record_sample: "scanner_record sample_entry"
  by (simp add: scanner_record_def NodeModulesEntry_def post_init_def sample_entry_def
      format_size_samples(1))

lemma scanner_record_ok:
  assumes "scanner_record e"
  shows "label_ok e" and "mark_ok e"
proof -
  from assms obtain label where "format_size (size_kb e) = Inr label"
    and "e = \<lparr>abs_path = abs_path e, rel_path = rel_path e, size_kb = size_kb e,
      size_human = label, status = ascii ''Active'', deleted = False, marked = False\<rparr>"
    by (auto simp: scanner_record_def NodeModulesEntry_def post_init_def split: sum.splits)
  then have "format_size (size_kb e) = Inr (size_human e)" "\<not> deleted e" "\<not> marked e"
    by (metis entry.select_convs(4), metis entry.select_convs(6), metis entry.select_convs(7))
  then show "label_ok e" and "mark_ok e" by (simp_all add: label_ok_def mark_ok_def)
qed

lemma reachable_label_ok: "reachable s \<Longrightarrow> list_all label_ok (entries s)"
proof (induction rule: reachable.induct)
  case start
  then show ?case by (simp add: initial_state_def)
next
  case (step s inp s')
  have arr: "list_all label_ok (arrivals inp)"
    using step.hyps(2) by (auto simp: list_all_iff scanner_record_ok)
  show ?case
  proof (rule iteration_all [OF step.IH arr _ _ step.hyps(3)])
    fix e
    assume "label_ok e" "\<not> deleted e"
    then show "label_ok (e\<lparr>marked := \<not> marked e\<rparr>)" by (simp add: label_ok_def)
  next
    fix e err
    assume "label_ok e" "\<not> deleted e"
    then show "label_ok (record_outcome err (e\<lparr>status := ascii ''Deleting...'', marked := False\<rparr>))"
      by (simp add: label_ok_def record_outcome_def split: option.splits)
  qed
qed

lemma reachable_mark_ok: "reachable s \<Longrightarrow> list_all mark_ok (entries s)"
proof (induction rule: reachable.induct)
  case start
  then show ?case by (simp add: initial_state_def)
next
  case (step s inp s')
  have arr: "list_all mark_ok (arrivals inp)"
    using step.hyps(2) by (auto simp: list_all_iff scanner_record_ok)
  show ?case
  proof (rule iteration_all [OF step.IH arr _ _ step.hyps(3)])
    fix e
    assume "mark_ok e" "\<not> deleted e"
    then show "mark_ok (e\<lparr>marked := \<not> marked e\<rparr>)" by (simp add: mark_ok_def)
  next
    fix e err
    assume "mark_ok e" "\<not> deleted e"
    then show "mark_ok (record_outcome err (e\<lparr>status := ascii ''Deleting...'', marked := False\<rparr>))"
      by (simp add: mark_ok_def record_outcome_def split: option.splits)
  qed
qed

text \<open>
  Claim C2, as stated: in every reachable record, \<open>size_kb = 0\<close> implies the label
  \<open>0 B\<close>. After one iteration that takes in a record, receives the delete key and the
  confirmation \<open>Y\<close>, and removes the directory, the record has \<open>size_kb = 0\<close> and the
  label is the em dash: the success branch of the delete loop sets both.
\<close>

theorem deleted_label_counterexample:
  "reachable
     \<lparr>entries = [\<lparr>abs_path = ascii ''/r/a/node_modules'', rel_path = ascii ''a'', size_kb = 0,
        size_human = [8212], status = ascii ''Deleted'', deleted = True, marked = False\<rparr>],
      selected = 0, scroll = 0\<rparr> \<and>
   [8212] \<noteq> ascii ''0 B''"
proof -
  let ?inp = "\<lparr>arrivals = [sample_entry], height = 24, key = ord CHR ''D'',
    confirm_key = ord CHR ''Y'', removal = (\<lambda>k. Removed)\<rparr>"
  have hi: "handle_input (ord CHR ''D'') 0 0 [sample_entry] 24 = (0, 0, False, True, False)"
    by (simp add: handle_input_def keys_simps SCROLLOFF_def Let_def)
  have dw: "delete_workflow ?inp \<lparr>entries = [sample_entry], selected = 0, scroll = 0\<rparr> =
    Inr \<lparr>entries = [\<lparr>abs_path = ascii ''/r/a/node_modules'', rel_path = ascii ''a'', size_kb = 0,
        size_human = [8212], status = ascii ''Deleted'', deleted = True, marked = False\<rparr>],
      selected = 0, scroll = 0\<rparr>"
    by (simp add: delete_workflow_def delete_targets_def py_position_def sample_entry_def
      delete_entry_def record_outcome_def keys_simps)
  have "iteration ?inp initial_state =
    Continue \<lparr>entries = [\<lparr>abs_path = ascii ''/r/a/node_modules'', rel_path = ascii ''a'', size_kb = 0,
        size_human = [8212], status = ascii ''Deleted'', deleted = True, marked = False\<rparr>],
      selected = 0, scroll = 0\<rparr>"
    by (simp add: iteration_def initial_state_def drain_and_clamp_def Let_def keys_simps
      hi [unfolded keys_simps] dw [unfolded keys_simps])
  moreover have "list_all scanner_record (arrivals ?inp)"
    by (simp add: scanner_record_sample)
  ultimately have "reachable
     \<lparr>entries = [\<lparr>abs_path = ascii ''/r/a/node_modules'', rel_path = ascii ''a'', size_kb = 0,
        size_human = [8212], status = ascii ''Deleted'', deleted = True, marked = False\<rparr>],
      selected = 0, scroll = 0\<rparr>"
    using reachable.step [OF reachable.start] by blast
  then show ?thesis by (simp add: ascii_def)
qed

text \<open>
  Claim C2, amended: in every state that \<open>main_loop\<close> reaches at the head of an
  iteration, a record that is not deleted carries the label \<open>format_size\<close> gives for its
  size, so \<open>size_kb = 0\<close> implies the label \<open>0 B\<close>; a deleted record has \<open>size_kb = 0\<close>
  and the em dash for its label.
\<close>

theorem reachable_size_label:
  assumes "reachable s" and "e \<in> set (entries s)"
  shows "(\<not> deleted e \<longrightarrow> format_size (size_kb e) = Inr (size_human e)) \<and>
    (size_kb e = 0 \<and> \<not> deleted e \<longrightarrow> size_human e = ascii ''0 B'') \<and>
    (deleted e \<longrightarrow> size_kb e = 0 \<and> size_human e = [8212])"
proof -
  have ok: "label_ok e"
    using reachable_label_ok [OF assms(1)] assms(2) by (simp add: list_all_iff)
  have "size_human e = ascii ''0 B''" if "size_kb e = 0" "\<not> deleted e"
    using ok that by (simp add: label_ok_def format_size_def)
  then show ?thesis using ok by (auto simp: label_ok_def)
qed

theorem reachable_size_label_witness:
  "reachable
     \<lparr>entries = [\<lparr>abs_path = ascii ''/r/b/node_modules'', rel_path = ascii ''b'', size_kb = 0,
        size_human = ascii ''0 B'', status = ascii ''Active'', deleted = False, marked = False\<rparr>],
      selected = 0, scroll = 0\<rparr> \<and>
   format_size 0 = Inr (ascii ''0 B'')"
proof -
  let ?e = "\<lparr>abs_path = ascii ''/r/b/node_modules'', rel_path = ascii ''b'', size_kb = 0,
        size_human = ascii ''0 B'', status = ascii ''Active'', deleted = False, marked = False\<rparr>"
  let ?inp = "\<lparr>arrivals = [?e], height = 24, key = - 1, confirm_key = - 1,
    removal = (\<lambda>k. Removed)\<rparr>"
  have "iteration ?inp initial_state = Continue \<lparr>entries = [?e], selected = 0, scroll = 0\<rparr>"
    by (simp add: iteration_def initial_state_def drain_and_clamp_def Let_def)
  moreover have "list_all scanner_record (arrivals ?inp)"
    by (simp add: scanner_record_def NodeModulesEntry_def post_init_def format_size_def ascii_def)
  ultimately have r: "reachable \<lparr>entries = [?e], selected = 0, scroll = 0\<rparr>"
    using reachable.step [OF reachable.start] by blast
  show ?thesis
    using r reachable_size_label [OF r, of ?e] by simp
qed

text \<open>
  Claim C5 at the input where the code departs from it: \<open>shutil.rmtree\<close> raises an
  exception whose \<open>str\<close> is empty. \<open>delete_entry\<close> returns that empty error string (a
  failure, by its docstring), \<open>if error:\<close> is false for it, and the record is marked
  deleted with the status \<open>Deleted\<close> although the deletion failed.
\<close>

theorem empty_error_marked_deleted:
  "delete_entry (Raised []) sample_entry = Some [] \<and>
   delete_workflow
     \<lparr>arrivals = [], height = 24, key = ord CHR ''D'', confirm_key = ord CHR ''Y'',
      removal = (\<lambda>k. Raised [])\<rparr>
     \<lparr>entries = [sample_entry], selected = 0, scroll = 0\<rparr> =
   Inr \<lparr>entries = [\<lparr>abs_path = ascii ''/r/a/node_modules'', rel_path = ascii ''a'', size_kb = 0,
        size_human = [8212], status = ascii ''Deleted'', deleted = True, marked = False\<rparr>],
      selected = 0, scroll = 0\<rparr>"
  by (simp add: delete_workflow_def delete_targets_def py_position_def sample_entry_def
      delete_entry_def record_outcome_def keys_simps)

text \<open>
  Claim C4 at the input where the code departs from it: a terminal of 4 lines makes
  \<open>table_rows\<close> negative, and the page-down key moves the selection from 0 to \<open>-1\<close>;
  the clamp at the head of the next iteration bounds the selection from above only, so
  the state with selection \<open>-1\<close> is reached.
\<close>

theorem page_down_negative_selection:
  "handle_input KEY_NPAGE 0 0 [sample_entry] 4 = (- 1, 0, False, False, False) \<and>
   reachable \<lparr>entries = [sample_entry], selected = - 1, scroll = 0\<rparr>"
proof -
  let ?inp = "\<lparr>arrivals = [sample_entry], height = 4, key = KEY_NPAGE,
    confirm_key = - 1, removal = (\<lambda>k. Removed)\<rparr>"
  have hi: "handle_input KEY_NPAGE 0 0 [sample_entry] 4 = (- 1, 0, False, False, False)"
    by (simp add: handle_input_def keys_simps SCROLLOFF_def Let_def)
  have "iteration ?inp initial_state =
    Continue \<lparr>entries = [sample_entry], selected = - 1, scroll = 0\<rparr>"
    by (simp add: iteration_def initial_state_def drain_and_clamp_def Let_def keys_simps
      hi [unfolded keys_simps])
  moreover have "list_all scanner_record (arrivals ?inp)"
    by (simp add: scanner_record_sample)
  ultimately have "reachable \<lparr>entries = [sample_entry], selected = - 1, scroll = 0\<rparr>"
    using reachable.step [OF reachable.start] by blast
  then show ?thesis using hi by simp
qed

section \<open>Delete targets and confirmation\<close>

lemma py_position_valid:
  assumes "0 \<le> i" and "i < int (length xs)"
  shows "py_position xs i = Inr (nat i)"
  using assms by (simp add: py_position_def Let_def)

lemma delete_targets_marked:
  assumes "list_all mark_ok es" and "\<exists>e\<in>set es. marked e"
  shows "delete_targets es sel =
    Inr (filter (\<lambda>i. marked (es ! i) \<and> \<not> deleted (es ! i)) [0..<length es])"
proof -
  from assms(2) obtain i where i: "i < length es" "marked (es ! i)"
    by (auto simp: in_set_conv_nth)
  then have "\<not> deleted (es ! i)"
    using assms(1) by (auto simp: list_all_length mark_ok_def)
  then have "i \<in> set (filter (\<lambda>i. marked (es ! i) \<and> \<not> deleted (es ! i)) [0..<length es])"
    using i by simp
  then have "filter (\<lambda>i. marked (es ! i) \<and> \<not> deleted (es ! i)) [0..<length es] \<noteq> []"
    by (metis empty_iff list.set(1))
  then show ?thesis by (simp add: delete_targets_def Let_def)
qed

lemma delete_targets_unmarked:
  assumes "\<forall>e\<in>set es. \<not> marked e" and "0 \<le> sel" and "sel < int (length es)"
  shows "delete_targets es sel = Inr (if \<not> deleted (es ! nat sel) then [nat sel] else [])"
proof -
  have "filter (\<lambda>i. marked (es ! i) \<and> \<not> deleted (es ! i)) [0..<length es] = []"
    using assms(1) by (auto simp: filter_empty_conv)
  then show ?thesis
    using py_position_valid [OF assms(2,3)] by (simp add: delete_targets_def Let_def)
qed

lemma delete_targets_total:
  assumes "0 \<le> sel" and "sel < int (length es)"
  shows "\<exists>ts. delete_targets es sel = Inr ts"
  using py_position_valid [OF assms] by (simp add: delete_targets_def Let_def)

text \<open>
  The delete workflow where the selection is a row of the table (\<open>0 \<le> selected < n\<close>)
  and the records are those of a session (none is both marked and deleted): the targets
  are exactly the marked records that are not deleted; if no record is marked, the
  target is the single selected record provided it is not deleted; with no target the
  operation changes nothing; only the confirmation keys \<open>Y\<close> and \<open>y\<close> let the
  deletion proceed (and then only the targets change), and any other key leaves the
  state, and so every record, unchanged.
\<close>

lemma delete_targets_valid_selection:
  assumes "list_all mark_ok (entries s)"
    and "0 \<le> selected s" and "selected s < int (length (entries s))"
  shows "((\<exists>e\<in>set (entries s). marked e) \<longrightarrow>
      delete_targets (entries s) (selected s) =
        Inr (filter (\<lambda>i. marked (entries s ! i) \<and> \<not> deleted (entries s ! i))
               [0..<length (entries s)])) \<and>
    ((\<forall>e\<in>set (entries s). \<not> marked e) \<longrightarrow>
      delete_targets (entries s) (selected s) =
        Inr (if \<not> deleted (entries s ! nat (selected s)) then [nat (selected s)] else [])) \<and>
    (delete_targets (entries s) (selected s) = Inr [] \<longrightarrow> delete_workflow inp s = Inr s) \<and>
    (confirm_key inp \<noteq> ord CHR ''Y'' \<and> confirm_key inp \<noteq> ord CHR ''y'' \<longrightarrow>
      delete_workflow inp s = Inr s) \<and>
    (\<forall>ts. delete_targets (entries s) (selected s) = Inr ts \<and> ts \<noteq> [] \<and>
        (confirm_key inp = ord CHR ''Y'' \<or> confirm_key inp = ord CHR ''y'') \<longrightarrow>
      delete_workflow inp s =
        Inr (s\<lparr>entries := delete_loop (removal inp) 0 ts (begin_delete ts (entries s))\<rparr>) \<and>
      (\<forall>j<length (entries s). j \<notin> set ts \<longrightarrow>
         delete_loop (removal inp) 0 ts (begin_delete ts (entries s)) ! j = entries s ! j))"
proof (intro conjI impI allI)
  assume "\<exists>e\<in>set (entries s). marked e"
  then show "delete_targets (entries s) (selected s) =
        Inr (filter (\<lambda>i. marked (entries s ! i) \<and> \<not> deleted (entries s ! i))
               [0..<length (entries s)])"
    using assms(1) by (intro delete_targets_marked)
next
  assume "\<forall>e\<in>set (entries s). \<not> marked e"
  then show "delete_targets (entries s) (selected s) =
        Inr (if \<not> deleted (entries s ! nat (selected s)) then [nat (selected s)] else [])"
    using assms(2,3) by (intro delete_targets_unmarked)
next
  assume "delete_targets (entries s) (selected s) = Inr []"
  then show "delete_workflow inp s = Inr s" by (rule delete_workflow_no_targets)
next
  assume k: "confirm_key inp \<noteq> ord CHR ''Y'' \<and> confirm_key inp \<noteq> ord CHR ''y''"
  obtain ts where "delete_targets (entries s) (selected s) = Inr ts"
    using delete_targets_total [OF assms(2,3)] by blast
  then show "delete_workflow inp s = Inr s"
    using k by (intro delete_workflow_cancelled) simp_all
next
  fix ts
  assume a: "delete_targets (entries s) (selected s) = Inr ts \<and> ts \<noteq> [] \<and>
        (confirm_key inp = ord CHR ''Y'' \<or> confirm_key inp = ord CHR ''y'')"
  then show "delete_workflow inp s =
        Inr (s\<lparr>entries := delete_loop (removal inp) 0 ts (begin_delete ts (entries s))\<rparr>)"
    by (intro delete_workflow_confirmed) simp_all
next
  fix ts j
  assume a: "delete_targets (entries s) (selected s) = Inr ts \<and> ts \<noteq> [] \<and>
        (confirm_key inp = ord CHR ''Y'' \<or> confirm_key inp = ord CHR ''y'')"
    and j: "j < length (entries s)" "j \<notin> set ts"
  have "distinct ts" using a delete_targets_props(1) by blast
  then show "delete_loop (removal inp) 0 ts (begin_delete ts (entries s)) ! j = entries s ! j"
    using j by (simp add: delete_loop_other begin_delete_nth)
qed

lemma delete_targets_valid_selection_example:
  "delete_targets [sample_entry, sample_entry\<lparr>marked := True\<rparr>] 0 = Inr [1] \<and>
   delete_targets [sample_entry, sample_entry] 1 = Inr [1] \<and>
   delete_workflow
     \<lparr>arrivals = [], height = 24, key = ord CHR ''D'', confirm_key = ord CHR ''n'',
      removal = (\<lambda>k. Removed)\<rparr>
     \<lparr>entries = [sample_entry, sample_entry\<lparr>marked := True\<rparr>], selected = 0, scroll = 0\<rparr> =
   Inr \<lparr>entries = [sample_entry, sample_entry\<lparr>marked := True\<rparr>], selected = 0, scroll = 0\<rparr> \<and>
   delete_workflow
     \<lparr>arrivals = [], height = 24, key = ord CHR ''D'', confirm_key = ord CHR ''Y'',
      removal = (\<lambda>k. Removed)\<rparr>
     \<lparr>entries = [sample_entry, sample_entry\<lparr>marked := True\<rparr>], selected = 0, scroll = 0\<rparr> =
   Inr \<lparr>entries = [sample_entry,
          \<lparr>abs_path = ascii ''/r/a/node_modules'', rel_path = ascii ''a'', size_kb = 0,
           size_human = [8212], status = ascii ''Deleted'', deleted = True, marked = False\<rparr>],
        selected = 0, scroll = 0\<rparr>"
proof -
  let ?s = "\<lparr>entries = [sample_entry, sample_entry\<lparr>marked := True\<rparr>], selected = 0, scroll = 0\<rparr>"
  let ?u = "\<lparr>entries = [sample_entry, sample_entry], selected = 1, scroll = 0\<rparr>"
  let ?n = "\<lparr>arrivals = [], height = 24, key = ord CHR ''D'', confirm_key = ord CHR ''n'',
      removal = (\<lambda>k. Removed)\<rparr>"
  let ?y = "\<lparr>arrivals = [], height = 24, key = ord CHR ''D'', confirm_key = ord CHR ''Y'',
      removal = (\<lambda>k. Removed)\<rparr>"
  have ok: "list_all mark_ok (entries ?s)" "list_all mark_ok (entries ?u)"
    by (simp_all add: mark_ok_def sample_entry_def)
  have f: "filter (\<lambda>i. marked ([sample_entry, sample_entry\<lparr>marked := True\<rparr>] ! i) \<and>
      \<not> deleted ([sample_entry, sample_entry\<lparr>marked := True\<rparr>] ! i)) [0..<2] = [1]"
    by (simp add: sample_entry_def upt_rec)
  have ev: "delete_loop (\<lambda>k. Removed) 0 [1]
      (begin_delete [1] [sample_entry, sample_entry\<lparr>marked := True\<rparr>]) =
    [sample_entry,
          \<lparr>abs_path = ascii ''/r/a/node_modules'', rel_path = ascii ''a'', size_kb = 0,
           size_human = [8212], status = ascii ''Deleted'', deleted = True, marked = False\<rparr>]"
    by (simp add: sample_entry_def delete_entry_def record_outcome_def)
  show ?thesis
    using delete_targets_valid_selection [OF ok(1), of ?n]
      delete_targets_valid_selection [OF ok(1), of ?y]
      delete_targets_valid_selection [OF ok(2), of ?n] f ev
    by (simp add: keys_simps sample_entry_def)
qed

text \<open>
  Claim C7 at an input where the code departs from it. On a terminal of 3 lines the
  page-down key moves the selection from 0 to \<open>-2\<close> (the defect of claim C4: the page
  keys do not clamp from below when \<open>table_rows\<close> is negative), and the state is
  reached. With one record and nothing marked, the delete key then reads
  \<open>entries[-2]\<close>, which raises \<open>IndexError\<close> before the confirmation dialog: the
  operation is neither a no-op nor cancelled by any key, the exception leaves
  \<open>main_loop\<close>. With the selection \<open>-1\<close> and two records the target is the last
  record, \<open>entries[-1]\<close>, though no row of the table is selected.
\<close>

theorem delete_with_negative_selection:
  "reachable \<lparr>entries = [sample_entry], selected = - 2, scroll = 0\<rparr> \<and>
   list_all mark_ok [sample_entry] \<and>
   delete_targets [sample_entry] (- 2) = Inl IndexError \<and>
   (\<forall>ck. delete_workflow
      \<lparr>arrivals = [], height = 3, key = ord CHR ''D'', confirm_key = ck,
       removal = (\<lambda>k. Removed)\<rparr>
      \<lparr>entries = [sample_entry], selected = - 2, scroll = 0\<rparr> = Inl IndexError) \<and>
   iteration
     \<lparr>arrivals = [], height = 3, key = ord CHR ''D'', confirm_key = ord CHR ''n'',
      removal = (\<lambda>k. Removed)\<rparr>
     \<lparr>entries = [sample_entry], selected = - 2, scroll = 0\<rparr> = Crash IndexError \<and>
   delete_targets [sample_entry, sample_entry] (- 1) = Inr [1]"
proof -
  let ?inp = "\<lparr>arrivals = [sample_entry], height = 3, key = KEY_NPAGE,
    confirm_key = - 1, removal = (\<lambda>k. Removed)\<rparr>"
  have hi: "handle_input KEY_NPAGE 0 0 [sample_entry] 3 = (- 2, 0, False, False, False)"
    by (simp add: handle_input_def keys_simps SCROLLOFF_def Let_def)
  have "iteration ?inp initial_state =
    Continue \<lparr>entries = [sample_entry], selected = - 2, scroll = 0\<rparr>"
    by (simp add: iteration_def initial_state_def drain_and_clamp_def Let_def keys_simps
      hi [unfolded keys_simps])
  moreover have "list_all scanner_record (arrivals ?inp)"
    by (simp add: scanner_record_sample)
  ultimately have r: "reachable \<lparr>entries = [sample_entry], selected = - 2, scroll = 0\<rparr>"
    using reachable.step [OF reachable.start] by blast
  have t: "delete_targets [sample_entry] (- 2) = Inl IndexError"
    by (simp add: delete_targets_def py_position_def sample_entry_def)
  have w: "delete_workflow
      \<lparr>arrivals = [], height = 3, key = ord CHR ''D'', confirm_key = ck,
       removal = (\<lambda>k. Removed)\<rparr>
      \<lparr>entries = [sample_entry], selected = - 2, scroll = 0\<rparr> = Inl IndexError" for ck
    by (simp add: delete_workflow_def t)
  have hd: "handle_input (ord CHR ''D'') (- 2) 0 [sample_entry] 3 = (- 2, 0, False, True, False)"
    by (simp add: handle_input_def keys_simps SCROLLOFF_def Let_def)
  have it: "iteration
     \<lparr>arrivals = [], height = 3, key = ord CHR ''D'', confirm_key = ord CHR ''n'',
      removal = (\<lambda>k. Removed)\<rparr>
     \<lparr>entries = [sample_entry], selected = - 2, scroll = 0\<rparr> = Crash IndexError"
    by (simp add: iteration_def drain_and_clamp_def Let_def keys_simps
      hd [unfolded keys_simps] w [unfolded keys_simps])
  have m: "list_all mark_ok [sample_entry]"
    by (simp add: mark_ok_def sample_entry_def)
  have l: "delete_targets [sample_entry, sample_entry] (- 1) = Inr [1]"
    by (simp add: delete_targets_def py_position_def sample_entry_def)
  show ?thesis using r t w it m l by blast
qed

section \<open>Properties of the paths\<close>

lemma split_sep_nonempty [simp]: "split_sep p \<noteq> []"
  by (induction p) (auto split: list.splits)

lemma split_sep_plain: "sep \<notin> set p \<Longrightarrow> split_sep p = [p]"
  by (induction p) (auto split: list.splits)

lemma split_sep_append:
  "split_sep (a @ sep # b) = split_sep a @ split_sep b"
  by (induction a) (auto split: list.splits)

lemma split_sep_plain_append:
  "sep \<notin> set a \<Longrightarrow> split_sep (a @ sep # b) = a # split_sep b"
  by (simp add: split_sep_append split_sep_plain)

lemma split_join_sep:
  assumes "xs \<noteq> []" and "\<forall>x\<in>set xs. sep \<notin> set x"
  shows "split_sep (join_sep xs) = xs"
  using assms
proof (induction xs rule: join_sep.induct)
  case 1
  then show ?case by simp
next
  case (2 x)
  then show ?case by (simp add: split_sep_plain)
next
  case (3 x y ys)
  then show ?case by (simp add: split_sep_plain_append)
qed

lemma join_sep_inject:
  assumes "xs \<noteq> []" "ys \<noteq> []" "\<forall>x\<in>set xs. sep \<notin> set x" "\<forall>y\<in>set ys. sep \<notin> set y"
    and "join_sep xs = join_sep ys"
  shows "xs = ys"
  using assms by (metis split_join_sep)

lemma join_sep_snoc:
  assumes "xs \<noteq> []"
  shows "join_sep (xs @ [y]) = join_sep xs @ sep # y"
  using assms by (induction xs rule: join_sep.induct) simp_all

lemma join_path_name:
  assumes "n \<noteq> []" and "sep \<notin> set n"
  shows "join_path d n = with_sep d @ n"
proof -
  have "hd n \<noteq> sep" using assms by (cases n) auto
  then show ?thesis using assms(1) by (simp add: join_path_def with_sep_def)
qed

lemma with_sep_join:
  assumes "n \<noteq> []" and "sep \<notin> set n"
  shows "with_sep (with_sep d @ n) = with_sep d @ n @ [sep]"
proof -
  have "last (with_sep d @ n) = last n" using assms(1) by simp
  moreover have "last n \<noteq> sep" using assms by (metis last_in_set)
  ultimately show ?thesis using assms(1) by (simp add: with_sep_def)
qed

lemma join_sep_nonempty:
  assumes "xs \<noteq> []" and "\<forall>x\<in>set xs. x \<noteq> []"
  shows "join_sep xs \<noteq> []"
  using assms by (induction xs rule: join_sep.induct) simp_all

lemma join_sep_last:
  assumes "xs \<noteq> []" and "\<forall>x\<in>set xs. x \<noteq> [] \<and> sep \<notin> set x"
  shows "last (join_sep xs) \<noteq> sep"
  using assms
proof (induction xs rule: join_sep.induct)
  case 1
  then show ?case by simp
next
  case (2 x)
  then have "x \<noteq> []" "sep \<notin> set x" by simp_all
  then have "last x \<noteq> sep" by (metis last_in_set)
  then show ?case by simp
next
  case (3 x y ys)
  have "join_sep (y # ys) \<noteq> []" using 3(3) by (intro join_sep_nonempty) simp_all
  then have "last (join_sep (x # y # ys)) = last (join_sep (y # ys))" by simp
  then show ?case using 3 by simp
qed

lemma foldl_join_path:
  assumes "\<forall>n\<in>set ns. n \<noteq> [] \<and> sep \<notin> set n" and "ns \<noteq> []"
  shows "foldl join_path d ns = with_sep d @ join_sep ns"
  using assms
proof (induction ns rule: rev_induct)
  case Nil
  then show ?case by simp
next
  case (snoc n ns)
  show ?case
  proof (cases "ns = []")
    case True
    then show ?thesis using snoc.prems by (simp add: join_path_name)
  next
    case False
    then have ih: "foldl join_path d ns = with_sep d @ join_sep ns"
      using snoc by simp
    have n: "n \<noteq> []" "sep \<notin> set n" using snoc.prems by auto
    have ne: "join_sep ns \<noteq> []"
      using False snoc.prems(1) by (intro join_sep_nonempty) simp_all
    have "last (join_sep ns) \<noteq> sep"
      using False snoc.prems(1) by (intro join_sep_last) simp_all
    then have "with_sep (with_sep d @ join_sep ns) = with_sep d @ join_sep ns @ [sep]"
      using ne by (simp add: with_sep_def)
    then show ?thesis
      using ih n False by (simp add: join_path_name join_sep_snoc)
  qed
qed


section \<open>Properties of the walk\<close>

lemma wf_name_node_modules: "wf_name node_modules"
  by (simp add: wf_name_def node_modules_def ascii_def sep_def)

lemma walk_paths_names:
  "walk_paths d t = map (\<lambda>ns. join_path (foldl join_path d ns) node_modules) (walk_names t)"
proof (induction d t rule: walk_paths.induct)
  case (1 dirpath kids)
  let ?f = "\<lambda>d ns. join_path (foldl join_path d ns) node_modules"
  have step: "concat (map (\<lambda>(name, t). walk_paths (join_path dirpath name) t) K) =
      map (?f dirpath) (concat (map (\<lambda>(name, t). map ((#) name) (walk_names t)) K))"
    if "\<And>name t. (name, t) \<in> set K \<Longrightarrow>
        walk_paths (join_path dirpath name) t = map (?f (join_path dirpath name)) (walk_names t)"
    for K
    using that by (induction K) (auto simp: map_concat comp_def)
  show ?case
  proof (cases "node_modules \<in> set (map fst kids)")
    case True
    have "concat (map (\<lambda>(name, t). walk_paths (join_path dirpath name) t)
            (remove_name node_modules kids)) =
      map (?f dirpath) (concat (map (\<lambda>(name, t). map ((#) name) (walk_names t))
            (remove_name node_modules kids)))"
      using 1(1) [OF True] by (intro step) auto
    then show ?thesis using True by simp
  next
    case False
    have "concat (map (\<lambda>(name, t). walk_paths (join_path dirpath name) t) kids) =
      map (?f dirpath) (concat (map (\<lambda>(name, t). map ((#) name) (walk_names t)) kids))"
      using 1(2) [OF False] by (intro step) auto
    then show ?thesis using False by simp
  qed
qed simp_all


lemma remove_name_fst:
  "map fst (remove_name n kids) = remove1 n (map fst kids)"
  by (induction kids) auto

lemma walk_names_Dir:
  "walk_names (Dir kids) =
     (if node_modules \<in> set (map fst kids) then [[]] else []) @
     concat (map (\<lambda>(name, t). map ((#) name) (walk_names t)) (walked kids))"
  by (simp add: walked_def)

lemma walked_props:
  assumes "wf_tree (Dir kids)"
  shows "set (walked kids) \<subseteq> set kids" and "distinct (map fst (walked kids))"
    and "node_modules \<notin> set (map fst (walked kids))"
proof -
  have d: "distinct (map fst kids)" using assms by simp
  show "set (walked kids) \<subseteq> set kids"
    using remove_name_subset by (simp add: walked_def)
  show "distinct (map fst (walked kids))"
    using d by (simp add: walked_def remove_name_fst)
  show "node_modules \<notin> set (map fst (walked kids))"
    using d by (simp add: walked_def remove_name_fst del: set_map)
qed

lemma walk_names_props:
  assumes "wf_tree t" and "ns \<in> set (walk_names t)"
  shows "(\<forall>n\<in>set ns. wf_name n) \<and> node_modules \<notin> set ns"
  using assms
proof (induction t arbitrary: ns rule: walk_names.induct)
  case (1 kids)
  show ?case
  proof (cases "ns = []")
    case True
    then show ?thesis by simp
  next
    case False
    then obtain name t ms where k: "(name, t) \<in> set (walked kids)"
      and ms: "ms \<in> set (walk_names t)" and ns: "ns = name # ms"
      using 1(4) unfolding walk_names_Dir by (auto split: if_splits)
    have sub: "(name, t) \<in> set kids" using walked_props(1) [OF 1(3)] k by auto
    then have wf: "wf_name name" "wf_tree t" using 1(3) by auto
    have ne: "name \<noteq> node_modules"
      using walked_props(3) [OF 1(3)] k by force
    have "(\<forall>n\<in>set ms. wf_name n) \<and> node_modules \<notin> set ms"
    proof (cases "node_modules \<in> set (map fst kids)")
      case True
      then have "(name, t) \<in> set (remove_name node_modules kids)"
        using k by (simp add: walked_def)
      then show ?thesis using 1(1) [OF True _ _ wf(2) ms] by auto
    next
      case False
      then show ?thesis using 1(2) [OF False sub _ wf(2) ms] by auto
    qed
    then show ?thesis using ns wf(1) ne by auto
  qed
qed simp_all

lemma walk_names_distinct:
  assumes "wf_tree t"
  shows "distinct (walk_names t)"
  using assms
proof (induction t rule: walk_names.induct)
  case (1 kids)
  let ?g = "\<lambda>(name, t). map ((#) name) (walk_names t)"
  have inner: "distinct (walk_names t)" if "(name, t) \<in> set (walked kids)" for name t
  proof -
    have sub: "(name, t) \<in> set kids" using walked_props(1) [OF 1(3)] that by auto
    then have wf: "wf_tree t" using 1(3) by auto
    show ?thesis
    proof (cases "node_modules \<in> set (map fst kids)")
      case True
      then have "(name, t) \<in> set (remove_name node_modules kids)"
        using that by (simp add: walked_def)
      then show ?thesis using 1(1) [OF True _ _ wf] by auto
    next
      case False
      then show ?thesis using 1(2) [OF False sub _ wf] by auto
    qed
  qed
  have gen: "distinct (concat (map ?g K))"
    if "distinct (map fst K)" and "\<And>name t. (name, t) \<in> set K \<Longrightarrow> distinct (walk_names t)"
    for K
    using that
  proof (induction K)
    case Nil
    then show ?case by simp
  next
    case (Cons k K)
    obtain name t where k: "k = (name, t)" by (cases k)
    have "distinct (map ((#) name) (walk_names t))"
      using Cons.prems(2) [of name t] k by (simp add: distinct_map)
    moreover have "distinct (concat (map ?g K))"
      using Cons by auto
    moreover have "set (map ((#) name) (walk_names t)) \<inter> set (concat (map ?g K)) = {}"
      using Cons.prems(1) k by force
    ultimately show ?case using k by simp
  qed
  have "distinct (concat (map ?g (walked kids)))"
    using walked_props(2) [OF 1(3)] inner by (intro gen) auto
  moreover have "[] \<notin> set (concat (map ?g (walked kids)))" by auto
  ultimately show ?case unfolding walk_names_Dir by simp
qed simp_all


lemma path_of_names:
  assumes "\<forall>n\<in>set ns. wf_name n"
  shows "join_path (foldl join_path d ns) node_modules =
    with_sep d @ join_sep (ns @ [node_modules])"
proof -
  have nm: "node_modules \<noteq> []" "sep \<notin> set node_modules"
    using wf_name_node_modules by (simp_all add: wf_name_def)
  have ns: "\<forall>n\<in>set ns. n \<noteq> [] \<and> sep \<notin> set n"
    using assms by (simp add: wf_name_def)
  show ?thesis
  proof (cases "ns = []")
    case True
    then show ?thesis using nm by (simp add: join_path_name)
  next
    case False
    have ne: "join_sep ns \<noteq> []" using False ns by (intro join_sep_nonempty) simp_all
    have "last (join_sep ns) \<noteq> sep" using False ns by (intro join_sep_last) simp_all
    then have "with_sep (with_sep d @ join_sep ns) = with_sep d @ join_sep ns @ [sep]"
      using ne by (simp add: with_sep_def)
    then show ?thesis
      using False nm by (simp add: foldl_join_path [OF ns False] join_path_name join_sep_snoc)
  qed
qed

lemma walk_paths_formula:
  assumes "wf_tree t"
  shows "walk_paths d t = map (\<lambda>ns. with_sep d @ join_sep (ns @ [node_modules])) (walk_names t)"
  unfolding walk_paths_names
  using walk_names_props [OF assms] by (intro map_cong refl path_of_names) auto

lemma names_sep_free:
  assumes "\<forall>n\<in>set ns. wf_name n"
  shows "\<forall>x\<in>set (ns @ [node_modules]). sep \<notin> set x"
  using assms wf_name_node_modules by (auto simp: wf_name_def)

lemma walk_names_sep_free:
  assumes "wf_tree t" and "ns \<in> set (walk_names t)"
  shows "\<forall>x\<in>set (ns @ [node_modules]). sep \<notin> set x"
proof -
  have "\<forall>n\<in>set ns. wf_name n" using walk_names_props [OF assms] by simp
  then show ?thesis by (rule names_sep_free)
qed

lemma walk_paths_distinct:
  assumes "wf_tree t"
  shows "distinct (walk_paths d t)"
proof -
  have "inj_on (\<lambda>ns. with_sep d @ join_sep (ns @ [node_modules])) (set (walk_names t))"
  proof (rule inj_onI)
    fix ns ms
    assume ns: "ns \<in> set (walk_names t)" and ms: "ms \<in> set (walk_names t)"
      and eq: "with_sep d @ join_sep (ns @ [node_modules]) =
        with_sep d @ join_sep (ms @ [node_modules])"
    have sf: "\<forall>x\<in>set (ns @ [node_modules]). sep \<notin> set x"
      "\<forall>x\<in>set (ms @ [node_modules]). sep \<notin> set x"
      using walk_names_sep_free [OF assms ns] walk_names_sep_free [OF assms ms] by simp_all
    have "join_sep (ns @ [node_modules]) = join_sep (ms @ [node_modules])" using eq by simp
    then have "ns @ [node_modules] = ms @ [node_modules]"
      using sf by (intro join_sep_inject) simp_all
    then show "ns = ms" by simp
  qed
  then show ?thesis
    unfolding walk_paths_formula [OF assms]
    using walk_names_distinct [OF assms] by (simp add: distinct_map)
qed

lemma walk_paths_not_nested:
  assumes "wf_tree t" and "p \<in> set (walk_paths d t)" and "q \<in> set (walk_paths d t)"
  shows "q \<noteq> p @ sep # r"
proof
  assume eq: "q = p @ sep # r"
  from assms(2,3) obtain ns ms where ns: "ns \<in> set (walk_names t)"
    and p: "p = with_sep d @ join_sep (ns @ [node_modules])"
    and ms: "ms \<in> set (walk_names t)"
    and q: "q = with_sep d @ join_sep (ms @ [node_modules])"
    unfolding walk_paths_formula [OF assms(1)] by auto
  have "join_sep (ms @ [node_modules]) = join_sep (ns @ [node_modules]) @ sep # r"
    using eq p q by simp
  then have "split_sep (join_sep (ms @ [node_modules])) =
      split_sep (join_sep (ns @ [node_modules])) @ split_sep r"
    by (simp add: split_sep_append)
  moreover have "split_sep (join_sep (ns @ [node_modules])) = ns @ [node_modules]"
    using walk_names_sep_free [OF assms(1) ns] by (intro split_join_sep) simp_all
  moreover have "split_sep (join_sep (ms @ [node_modules])) = ms @ [node_modules]"
    using walk_names_sep_free [OF assms(1) ms] by (intro split_join_sep) simp_all
  ultimately have "ms @ [node_modules] = (ns @ [node_modules]) @ split_sep r"
    by (simp only:)
  moreover obtain x xs where "split_sep r = xs @ [x]"
    using split_sep_nonempty [of r] by (metis rev_exhaust)
  ultimately have "ms = ns @ node_modules # xs" by simp
  then have "node_modules \<in> set ms" by simp
  then show False using walk_names_props [OF assms(1) ms] by simp
qed

lemma measure_and_enqueue_fields:
  assumes "measure_and_enqueue root cwd du ap = Inr e"
  shows "abs_path e = ap" and "relpath cwd (dirname ap) root = Inr (rel_path e)"
proof -
  from assms obtain rel label where r: "relpath cwd (dirname ap) root = Inr rel"
    and e: "e = \<lparr>abs_path = ap, rel_path = rel, size_kb = du ap, size_human = label,
      status = ascii ''Active'', deleted = False, marked = False\<rparr>"
    by (auto simp: measure_and_enqueue_def NodeModulesEntry_def post_init_def Let_def
        split: sum.splits)
  show "abs_path e = ap" using e by simp
  show "relpath cwd (dirname ap) root = Inr (rel_path e)" using r e by simp
qed

lemma find_node_modules_set:
  "e \<in> set (find_node_modules root cwd du t) \<longleftrightarrow>
   (\<exists>ap\<in>set (walk_paths root t). measure_and_enqueue root cwd du ap = Inr e)"
proof -
  have "e \<in> set (concat (map (\<lambda>ap. case measure_and_enqueue root cwd du ap of
                          Inl err \<Rightarrow> [] | Inr e \<Rightarrow> [e]) ps)) \<longleftrightarrow>
    (\<exists>ap\<in>set ps. measure_and_enqueue root cwd du ap = Inr e)" for ps
    by (induction ps) (auto split: sum.splits)
  then show ?thesis by (simp add: find_node_modules_def)
qed

lemma find_node_modules_abs_paths:
  "map abs_path (find_node_modules root cwd du t) =
   filter (\<lambda>ap. \<exists>e. measure_and_enqueue root cwd du ap = Inr e) (walk_paths root t)"
proof -
  have "map abs_path (concat (map (\<lambda>ap. case measure_and_enqueue root cwd du ap of
                          Inl err \<Rightarrow> [] | Inr e \<Rightarrow> [e]) ps)) =
    filter (\<lambda>ap. \<exists>e. measure_and_enqueue root cwd du ap = Inr e) ps" for ps
    by (induction ps) (auto split: sum.splits dest: measure_and_enqueue_fields(1))
  then show ?thesis by (simp add: find_node_modules_def)
qed

text \<open>
  Claim C9: the walk records no target nested inside another target (no recorded path
  continues another recorded path below a slash), and the absolute paths recorded in
  one scan, and so those of the records put on the queue, are pairwise distinct. The
  tree is one a filesystem can hold: distinct names in each directory, no slash in a
  name.
\<close>

theorem scan_targets_unique_not_nested:
  assumes "wf_tree t"
  shows "distinct (walk_paths root t) \<and>
    (\<forall>p\<in>set (walk_paths root t). \<forall>q\<in>set (walk_paths root t). \<forall>r. q \<noteq> p @ sep # r) \<and>
    distinct (map abs_path (find_node_modules root cwd du t)) \<and>
    (\<forall>e\<in>set (find_node_modules root cwd du t).
       \<forall>e'\<in>set (find_node_modules root cwd du t). \<forall>r. abs_path e' \<noteq> abs_path e @ sep # r)"
proof -
  have sub: "abs_path e \<in> set (walk_paths root t)"
    if "e \<in> set (find_node_modules root cwd du t)" for e
    using that measure_and_enqueue_fields(1) unfolding find_node_modules_set by blast
  have "distinct (map abs_path (find_node_modules root cwd du t))"
    unfolding find_node_modules_abs_paths
    using walk_paths_distinct [OF assms] by (rule distinct_filter)
  then show ?thesis
    using walk_paths_distinct [OF assms] walk_paths_not_nested [OF assms] sub by blast
qed

theorem scan_targets_unique_not_nested_witness:
  "wf_tree sample_tree \<and>
   walk_paths (ascii ''/r'') sample_tree =
     [ascii ''/r/node_modules'', ascii ''/r/a/node_modules'', ascii ''/r/b/c/node_modules''] \<and>
   distinct (walk_paths (ascii ''/r'') sample_tree)"
proof -
  have wf: "wf_tree sample_tree"
    by (simp add: sample_tree_def wf_name_def ascii_def sep_def)
  have "walk_paths (ascii ''/r'') sample_tree =
     [ascii ''/r/node_modules'', ascii ''/r/a/node_modules'', ascii ''/r/b/c/node_modules'']"
    by (simp add: sample_tree_def node_modules_def join_path_def ascii_def sep_def)
  then show ?thesis
    using wf scan_targets_unique_not_nested [OF wf, of "ascii ''/r''"] by simp
qed

section \<open>Properties of normpath, dirname and relpath\<close>

text \<open>The components that \<open>normpath\<close> keeps are not empty and hold no slash; a name
  of a directory is appended as it is.\<close>

lemma split_sep_sep_free: "\<forall>x\<in>set (split_sep p). sep \<notin> set x"
  by (induction p) (auto split: list.splits)

lemma split_sep_snoc_sep: "split_sep (p @ [sep]) = split_sep p @ [[]]"
  using split_sep_append [of p "[]"] by simp

lemma split_sep_replicate: "split_sep (replicate k sep @ q) = replicate k [] @ split_sep q"
  by (induction k) simp_all

lemma norm_step_slashes:
  "s \<noteq> 0 \<Longrightarrow> norm_step s = norm_step 1"
  by (intro ext) (simp add: norm_step_def)

lemma norm_step_empty: "norm_step s acc [] = acc"
  by (simp add: norm_step_def)

lemma norm_step_name: "wf_name n \<Longrightarrow> norm_step s acc n = acc @ [n]"
  by (simp add: norm_step_def wf_name_def)

lemma foldl_norm_step_names:
  "\<forall>n\<in>set ns. wf_name n \<Longrightarrow> foldl (norm_step s) acc ns = acc @ ns"
  by (induction ns arbitrary: acc) (simp_all add: norm_step_name)


lemma norm_comps_snoc_sep: "norm_comps (p @ [sep]) = norm_comps p"
  by (simp add: norm_comps_def split_sep_snoc_sep norm_step_empty)

lemma norm_comps_trailing: "norm_comps (p @ replicate k sep) = norm_comps p"
proof (induction k)
  case 0
  then show ?case by simp
next
  case (Suc k)
  have "p @ replicate (Suc k) sep = (p @ replicate k sep) @ [sep]"
    by (simp add: replicate_append_same)
  then show ?case using Suc by (simp only: norm_comps_snoc_sep)
qed

lemma norm_step_cases:
  "norm_step s acc c = acc \<or> (c \<noteq> [] \<and> norm_step s acc c = acc @ [c]) \<or>
   norm_step s acc c = butlast acc"
  by (simp add: norm_step_def)

lemma norm_step_good:
  assumes "\<forall>x\<in>set acc. x \<noteq> [] \<and> sep \<notin> set x" and "sep \<notin> set c"
  shows "\<forall>x\<in>set (norm_step s acc c). x \<noteq> [] \<and> sep \<notin> set x"
proof -
  consider "norm_step s acc c = acc" | "c \<noteq> []" "norm_step s acc c = acc @ [c]"
    | "norm_step s acc c = butlast acc"
    using norm_step_cases by blast
  then show ?thesis
  proof cases
    case 1
    then show ?thesis using assms(1) by simp
  next
    case 2
    then show ?thesis using assms by simp
  next
    case 3
    have "set (butlast acc) \<subseteq> set acc" by (meson in_set_butlastD subsetI)
    then show ?thesis using 3 assms(1) by auto
  qed
qed

lemma foldl_norm_step_good:
  assumes "\<forall>x\<in>set acc. x \<noteq> [] \<and> sep \<notin> set x" and "\<forall>c\<in>set cs. sep \<notin> set c"
  shows "\<forall>x\<in>set (foldl (norm_step s) acc cs). x \<noteq> [] \<and> sep \<notin> set x"
  using assms
proof (induction cs arbitrary: acc)
  case Nil
  then show ?case by simp
next
  case (Cons c cs)
  have "\<forall>x\<in>set (norm_step s acc c). x \<noteq> [] \<and> sep \<notin> set x"
    using Cons.prems by (intro norm_step_good) simp_all
  moreover have "\<forall>c\<in>set cs. sep \<notin> set c" using Cons.prems(2) by simp
  ultimately have "\<forall>x\<in>set (foldl (norm_step s) (norm_step s acc c) cs). x \<noteq> [] \<and> sep \<notin> set x"
    by (rule Cons.IH)
  then show ?case by simp
qed

lemma norm_comps_good: "\<forall>x\<in>set (norm_comps p). x \<noteq> [] \<and> sep \<notin> set x"
  unfolding norm_comps_def using split_sep_sep_free by (intro foldl_norm_step_good) simp_all


lemma initial_slashes_absolute: "take 1 p = [sep] \<Longrightarrow> initial_slashes p \<noteq> 0"
  by (simp add: initial_slashes_def)

lemma normpath_absolute:
  assumes "take 1 p = [sep]"
  shows "normpath p = replicate (initial_slashes p) sep @ join_sep (norm_comps p)"
proof -
  have s: "initial_slashes p \<noteq> 0" using assms by (rule initial_slashes_absolute)
  have ne: "p \<noteq> []" using assms by auto
  have st: "norm_step (initial_slashes p) = norm_step 1" using s by (rule norm_step_slashes)
  show ?thesis using ne s by (simp add: normpath_def Let_def st norm_comps_def)
qed

lemma comps_of_joined:
  assumes "\<forall>x\<in>set cs. x \<noteq> [] \<and> sep \<notin> set x"
  shows "filter (\<lambda>x. x \<noteq> []) (split_sep (replicate k sep @ join_sep cs)) = cs"
proof (cases "cs = []")
  case True
  then show ?thesis using split_sep_replicate [of k "[]"] by simp
next
  case False
  have "split_sep (join_sep cs) = cs" using False assms by (intro split_join_sep) simp_all
  moreover have "filter (\<lambda>x. x \<noteq> []) cs = cs" using assms by (simp add: filter_id_conv)
  ultimately show ?thesis by (simp add: split_sep_replicate)
qed

lemma join_path_relative: "take 1 p \<noteq> [sep] \<Longrightarrow> join_path d p = with_sep d @ p"
  by (cases p) (simp_all add: join_path_def with_sep_def)

lemma with_sep_absolute: "take 1 d = [sep] \<Longrightarrow> take 1 (with_sep d @ p) = [sep]"
  by (cases d) (simp_all add: with_sep_def)

lemma anchor_absolute: "take 1 cwd = [sep] \<Longrightarrow> take 1 (anchor cwd p) = [sep]"
  unfolding anchor_def using with_sep_absolute [of cwd p] by (simp del: take_append)

lemma abspath_anchor: "abspath cwd p = normpath (anchor cwd p)"
  by (simp add: abspath_def anchor_def join_path_relative)

lemma abspath_comps:
  assumes "take 1 cwd = [sep]"
  shows "filter (\<lambda>x. x \<noteq> []) (split_sep (abspath cwd p)) = norm_comps (anchor cwd p)"
proof -
  have "take 1 (anchor cwd p) = [sep]" using assms by (rule anchor_absolute)
  then have "normpath (anchor cwd p) =
    replicate (initial_slashes (anchor cwd p)) sep @ join_sep (norm_comps (anchor cwd p))"
    by (rule normpath_absolute)
  then show ?thesis
    unfolding abspath_anchor using comps_of_joined [OF norm_comps_good] by simp
qed


text \<open>\<open>dirname\<close> of a path that ends in a name: the part before the name, up to
  trailing slashes.\<close>

lemma takeWhile_same: "takeWhile (\<lambda>c. c = a) xs = replicate (length (takeWhile (\<lambda>c. c = a) xs)) a"
  by (induction xs) simp_all

lemma rstrip_sep_decomp: "\<exists>k. p = rstrip_sep p @ replicate k sep"
proof -
  have "rev p = takeWhile (\<lambda>c. c = sep) (rev p) @ dropWhile (\<lambda>c. c = sep) (rev p)"
    by simp
  then have "rev (rev p) =
    rev (dropWhile (\<lambda>c. c = sep) (rev p)) @ rev (takeWhile (\<lambda>c. c = sep) (rev p))"
    by (metis rev_append)
  moreover have "rev (takeWhile (\<lambda>c. c = sep) (rev p)) =
    replicate (length (takeWhile (\<lambda>c. c = sep) (rev p))) sep"
    using takeWhile_same [of sep "rev p"] by (metis rev_replicate)
  ultimately have "p = rstrip_sep p @ replicate (length (takeWhile (\<lambda>c. c = sep) (rev p))) sep"
    by (simp add: rstrip_sep_def)
  then show ?thesis ..
qed

lemma dirname_append_name:
  assumes "sep \<notin> set n" and "X = [] \<or> last X = sep"
  shows "dirname (X @ n) =
    (if X \<noteq> [] \<and> X \<noteq> replicate (length X) sep then rstrip_sep X else X)"
proof -
  have "dropWhile (\<lambda>c. c \<noteq> sep) (rev n @ rev X) = dropWhile (\<lambda>c. c \<noteq> sep) (rev X)"
    using assms(1) by (intro dropWhile_append2) auto
  moreover have "dropWhile (\<lambda>c. c \<noteq> sep) (rev X) = rev X"
  proof (cases "rev X")
    case Nil
    then show ?thesis by simp
  next
    case (Cons a as)
    then have "X \<noteq> []" by auto
    then have "last X = sep" using assms(2) by simp
    moreover have "last X = a" using Cons by (metis hd_rev list.sel(1))
    ultimately show ?thesis using Cons by simp
  qed
  ultimately have "rev (dropWhile (\<lambda>c. c \<noteq> sep) (rev (X @ n))) = X" by simp
  then show ?thesis by (simp add: dirname_def Let_def)
qed

lemma dirname_name_props:
  assumes "sep \<notin> set n" and "X = [] \<or> last X = sep"
  shows "\<exists>k. X = dirname (X @ n) @ replicate k sep"
    and "take 1 (dirname (X @ n)) = take 1 X"
proof -
  let ?D = "dirname (X @ n)"
  have d: "?D = (if X \<noteq> [] \<and> X \<noteq> replicate (length X) sep then rstrip_sep X else X)"
    using assms by (rule dirname_append_name)
  obtain k where k: "X = rstrip_sep X @ replicate k sep" using rstrip_sep_decomp by blast
  show "\<exists>k. X = ?D @ replicate k sep"
  proof (cases "X \<noteq> [] \<and> X \<noteq> replicate (length X) sep")
    case True
    then show ?thesis using d k by auto
  next
    case False
    then have "?D = X" using d by (simp only: if_False)
    then have "X = ?D @ replicate 0 sep" by simp
    then show ?thesis ..
  qed
  show "take 1 ?D = take 1 X"
  proof (cases "X \<noteq> [] \<and> X \<noteq> replicate (length X) sep")
    case True
    have "rstrip_sep X \<noteq> []"
    proof
      assume "rstrip_sep X = []"
      then have "X = replicate k sep" using k by simp
      then have "X = replicate (length X) sep" by (metis length_replicate)
      then show False using True by simp
    qed
    then have "take 1 (rstrip_sep X @ replicate k sep) = take 1 (rstrip_sep X)"
      by (cases "rstrip_sep X") simp_all
    then show ?thesis using d k True by simp
  next
    case False
    then have "?D = X" using d by (simp only: if_False)
    then show ?thesis by simp
  qed
qed


text \<open>\<open>relpath\<close> from the root to a path below it, and to the parent of a target.\<close>

lemma wf_names_good:
  assumes "\<forall>n\<in>set ns. wf_name n"
  shows "\<forall>x\<in>set ns. x \<noteq> [] \<and> sep \<notin> set x"
  using assms by (simp add: wf_name_def)

lemma with_sep_last: "B \<noteq> [] \<Longrightarrow> last (with_sep B) = sep"
  by (simp add: with_sep_def)

lemma with_sep_nonempty: "B \<noteq> [] \<Longrightarrow> with_sep B \<noteq> []"
  by (simp add: with_sep_def)

lemma norm_comps_with_sep: "norm_comps (with_sep B) = norm_comps B"
  by (simp add: with_sep_def norm_comps_snoc_sep)

lemma norm_comps_names:
  assumes "B \<noteq> []" and "\<forall>n\<in>set ns. wf_name n"
  shows "norm_comps (with_sep B @ tail_of ns) = norm_comps B @ ns"
proof (cases "ns = []")
  case True
  then show ?thesis by (simp add: tail_of_def norm_comps_with_sep)
next
  case False
  define Y where "Y = butlast (with_sep B)"
  have w: "with_sep B = Y @ [sep]"
    unfolding Y_def using with_sep_last [OF assms(1)] with_sep_nonempty [OF assms(1)]
    by (metis append_butlast_last_id)
  have y: "norm_comps Y = norm_comps B"
    using norm_comps_snoc_sep [of Y] w norm_comps_with_sep [of B] by simp
  have sp: "split_sep (join_sep ns) = ns"
    using False wf_names_good [OF assms(2)] by (intro split_join_sep) simp_all
  have "with_sep B @ tail_of ns = (Y @ sep # join_sep ns) @ [sep]"
    using False w by (simp add: tail_of_def)
  then have "norm_comps (with_sep B @ tail_of ns) = norm_comps (Y @ sep # join_sep ns)"
    by (simp only: norm_comps_snoc_sep)
  also have "\<dots> = foldl (norm_step 1) (norm_comps Y) ns"
    by (simp add: norm_comps_def split_sep_append sp)
  also have "\<dots> = norm_comps Y @ ns"
    using assms(2) by (rule foldl_norm_step_names)
  finally show ?thesis using y by simp
qed

lemma common_prefix_len_append: "common_prefix_len xs (xs @ ys) = length xs"
  by (induction xs) simp_all

lemma foldl_join_path_names:
  assumes "ns \<noteq> []" and "\<forall>x\<in>set ns. x \<noteq> [] \<and> sep \<notin> set x"
  shows "foldl join_path (hd ns) (tl ns) = join_sep ns"
proof (cases ns)
  case Nil
  then show ?thesis using assms(1) by simp
next
  case (Cons x xs)
  show ?thesis
  proof (cases "xs = []")
    case True
    then show ?thesis using Cons by simp
  next
    case False
    then obtain y ys where xs: "xs = y # ys" by (cases xs) auto
    have "foldl join_path x xs = with_sep x @ join_sep xs"
      using False assms(2) Cons by (intro foldl_join_path) simp_all
    moreover have "last x \<noteq> sep" using assms(2) Cons by (metis last_in_set list.set_intros(1))
    moreover have "x \<noteq> []" using assms(2) Cons by simp
    ultimately show ?thesis using Cons xs by (simp add: with_sep_def)
  qed
qed

lemma join_sep_first:
  assumes "ns \<noteq> []" and "\<forall>x\<in>set ns. x \<noteq> [] \<and> sep \<notin> set x"
  shows "take 1 (join_sep ns @ q) \<noteq> [sep]"
proof -
  obtain x xs where ns: "ns = x # xs" using assms(1) by (cases ns) auto
  then obtain c cs where x: "x = c # cs" and c: "c \<noteq> sep" using assms(2) by (cases x) auto
  show ?thesis using ns x c by (cases xs) simp_all
qed


lemma target_split:
  "with_sep R @ join_sep (ns @ [node_modules]) = (with_sep R @ tail_of ns) @ node_modules"
proof (cases "ns = []")
  case True
  then show ?thesis by (simp add: tail_of_def)
next
  case False
  then show ?thesis by (simp add: tail_of_def join_sep_snoc)
qed

lemma head_ends_in_sep:
  assumes "\<forall>n\<in>set ns. wf_name n"
  shows "with_sep R @ tail_of ns = [] \<or> last (with_sep R @ tail_of ns) = sep"
proof (cases "ns = []")
  case True
  then show ?thesis by (cases "R = []") (simp_all add: tail_of_def with_sep_def)
next
  case False
  then show ?thesis by (simp add: tail_of_def)
qed

lemma head_first:
  assumes "\<forall>n\<in>set ns. wf_name n"
  shows "take 1 (with_sep R @ tail_of ns) = [sep] \<longleftrightarrow> take 1 R = [sep]"
proof (cases "R = []")
  case True
  show ?thesis
  proof (cases "ns = []")
    case True
    then show ?thesis using \<open>R = []\<close> by (simp add: tail_of_def with_sep_def)
  next
    case False
    then have "take 1 (join_sep ns @ [sep]) \<noteq> [sep]"
      using wf_names_good [OF assms] by (intro join_sep_first) simp_all
    then show ?thesis using False \<open>R = []\<close> by (simp add: tail_of_def with_sep_def)
  qed
next
  case False
  then show ?thesis by (cases R) (simp_all add: with_sep_def)
qed

lemma with_sep_anchor:
  assumes "take 1 cwd = [sep]" and "take 1 R \<noteq> [sep]"
  shows "with_sep (anchor cwd R) = with_sep cwd @ with_sep R"
proof -
  have c: "cwd \<noteq> []" using assms(1) by auto
  show ?thesis
  proof (cases "R = []")
    case True
    then show ?thesis using c assms(2) by (simp add: anchor_def with_sep_def)
  next
    case False
    then show ?thesis using c assms(2) by (simp add: anchor_def with_sep_def)
  qed
qed

lemma anchor_nonempty: "take 1 cwd = [sep] \<Longrightarrow> anchor cwd R \<noteq> []"
  using anchor_absolute [of cwd R] by auto

lemma parent_comps:
  assumes "take 1 cwd = [sep]" and "\<forall>n\<in>set ns. wf_name n"
  shows "norm_comps (anchor cwd (dirname (with_sep R @ join_sep (ns @ [node_modules])))) =
    norm_comps (anchor cwd R) @ ns"
proof -
  define X where "X = with_sep R @ tail_of ns"
  define D where "D = dirname (X @ node_modules)"
  have nm: "sep \<notin> set node_modules" using wf_name_node_modules by (simp add: wf_name_def)
  have x: "X = [] \<or> last X = sep" unfolding X_def using assms(2) by (rule head_ends_in_sep)
  obtain k where k: "X = D @ replicate k sep"
    unfolding D_def using dirname_name_props(1) [OF nm x] by blast
  have f: "take 1 D = take 1 X" unfolding D_def using nm x by (rule dirname_name_props(2))
  have fr: "take 1 D = [sep] \<longleftrightarrow> take 1 R = [sep]"
    unfolding f X_def using assms(2) by (rule head_first)
  have "anchor cwd D @ replicate k sep = with_sep (anchor cwd R) @ tail_of ns"
  proof (cases "take 1 R = [sep]")
    case True
    then have "anchor cwd D = D" "anchor cwd R = R" using fr by (simp_all add: anchor_def)
    then show ?thesis using k X_def by simp
  next
    case False
    then have "anchor cwd D = with_sep cwd @ D" using fr by (simp add: anchor_def)
    then have "anchor cwd D @ replicate k sep = with_sep cwd @ X" using k by simp
    then show ?thesis using with_sep_anchor [OF assms(1) False] X_def by simp
  qed
  then have "norm_comps (anchor cwd D @ replicate k sep) =
    norm_comps (with_sep (anchor cwd R) @ tail_of ns)" by simp
  then have "norm_comps (anchor cwd D) = norm_comps (anchor cwd R) @ ns"
    using norm_comps_names [OF anchor_nonempty [OF assms(1)] assms(2)]
    by (simp only: norm_comps_trailing)
  then show ?thesis unfolding D_def X_def target_split .
qed

lemma relpath_parent:
  assumes "take 1 cwd = [sep]" and "\<forall>n\<in>set ns. wf_name n"
    and "dirname (with_sep R @ join_sep (ns @ [node_modules])) \<noteq> []"
  shows "relpath cwd (dirname (with_sep R @ join_sep (ns @ [node_modules]))) R =
    Inr (if ns = [] then ascii ''.'' else join_sep ns)"
proof -
  define D where "D = dirname (with_sep R @ join_sep (ns @ [node_modules]))"
  define S where "S = norm_comps (anchor cwd R)"
  have s: "filter (\<lambda>x. x \<noteq> []) (split_sep (abspath cwd R)) = S"
    unfolding S_def using assms(1) by (rule abspath_comps)
  have "filter (\<lambda>x. x \<noteq> []) (split_sep (abspath cwd D)) = norm_comps (anchor cwd D)"
    using assms(1) by (rule abspath_comps)
  then have p: "filter (\<lambda>x. x \<noteq> []) (split_sep (abspath cwd D)) = S @ ns"
    unfolding D_def S_def using parent_comps [OF assms(1,2)] by simp
  have d: "D \<noteq> []" unfolding D_def using assms(3) .
  have "relpath cwd D R =
    (if ns = [] then Inr (ascii ''.'') else Inr (foldl join_path (hd ns) (tl ns)))"
    using d by (simp add: relpath_def Let_def s p common_prefix_len_append)
  moreover have "ns \<noteq> [] \<Longrightarrow> foldl join_path (hd ns) (tl ns) = join_sep ns"
    using wf_names_good [OF assms(2)] by (intro foldl_join_path_names) simp_all
  ultimately show ?thesis unfolding D_def by simp
qed


lemma relpath_names:
  assumes "take 1 cwd = [sep]" and "\<forall>n\<in>set ms. wf_name n" and "ms \<noteq> []"
  shows "relpath cwd (with_sep R @ join_sep ms) R = Inr (join_sep ms)"
proof -
  define P where "P = with_sep R @ join_sep ms"
  define S where "S = norm_comps (anchor cwd R)"
  have g: "\<forall>x\<in>set ms. x \<noteq> [] \<and> sep \<notin> set x" using assms(2) by (rule wf_names_good)
  have "join_sep ms \<noteq> []" using assms(3) g by (intro join_sep_nonempty) simp_all
  then have ne: "P \<noteq> []" by (simp add: P_def)
  have ps: "P @ [sep] = with_sep R @ tail_of ms" using assms(3) by (simp add: P_def tail_of_def)
  have "take 1 (P @ [sep]) = take 1 P" using ne by (cases P) simp_all
  then have fr: "take 1 P = [sep] \<longleftrightarrow> take 1 R = [sep]"
    using head_first [OF assms(2), of R] ps by simp
  have "anchor cwd P @ [sep] = with_sep (anchor cwd R) @ tail_of ms"
  proof (cases "take 1 R = [sep]")
    case True
    then have "anchor cwd P = P" "anchor cwd R = R" using fr by (simp_all add: anchor_def)
    then show ?thesis using ps by simp
  next
    case False
    then have "anchor cwd P = with_sep cwd @ P" using fr by (simp add: anchor_def)
    then have "anchor cwd P @ [sep] = with_sep cwd @ with_sep R @ tail_of ms" using ps by simp
    then show ?thesis using with_sep_anchor [OF assms(1) False] by simp
  qed
  then have "norm_comps (anchor cwd P @ [sep]) =
    norm_comps (with_sep (anchor cwd R) @ tail_of ms)" by simp
  then have c: "norm_comps (anchor cwd P) = S @ ms"
    unfolding S_def using norm_comps_names [OF anchor_nonempty [OF assms(1)] assms(2)]
    by (simp only: norm_comps_snoc_sep)
  have s: "filter (\<lambda>x. x \<noteq> []) (split_sep (abspath cwd R)) = S"
    unfolding S_def using assms(1) by (rule abspath_comps)
  have "filter (\<lambda>x. x \<noteq> []) (split_sep (abspath cwd P)) = norm_comps (anchor cwd P)"
    using assms(1) by (rule abspath_comps)
  then have p: "filter (\<lambda>x. x \<noteq> []) (split_sep (abspath cwd P)) = S @ ms"
    using c by simp
  have "relpath cwd P R = Inr (foldl join_path (hd ms) (tl ms))"
    using ne assms(3) by (simp add: relpath_def Let_def s p common_prefix_len_append)
  moreover have "foldl join_path (hd ms) (tl ms) = join_sep ms"
    using assms(3) g by (rule foldl_join_path_names)
  ultimately show ?thesis unfolding P_def by simp
qed

lemma relpath_target:
  assumes "take 1 cwd = [sep]" and "\<forall>n\<in>set ns. wf_name n"
  shows "relpath cwd (with_sep R @ join_sep (ns @ [node_modules])) R =
    Inr (join_sep (ns @ [node_modules]))"
  using assms wf_name_node_modules by (intro relpath_names) simp_all

lemma target_longer:
  assumes "\<forall>n\<in>set ns. wf_name n"
  shows "(if ns = [] then ascii ''.'' else join_sep ns) \<noteq>
    with_sep R @ join_sep (ns @ [node_modules])"
proof (cases "ns = []")
  case True
  have "length (with_sep R @ node_modules) \<noteq> length (ascii ''.'')"
    by (simp add: node_modules_def ascii_def)
  then show ?thesis using True by auto
next
  case False
  have "length (with_sep R @ join_sep (ns @ [node_modules])) \<noteq> length (join_sep ns)"
    using False by (simp add: join_sep_snoc)
  then show ?thesis using False by auto
qed

lemma with_sep_empty: "with_sep [] = []"
  by (simp add: with_sep_def)

text \<open>The scan of the sample tree below \<open>/r\<close>, from the working directory \<open>/w\<close>, with
  100 KB measured for every target.\<close>

lemma sample_dirname: "dirname (ascii ''/r/a/node_modules'') = ascii ''/r/a''"
  by (simp add: dirname_def rstrip_sep_def ascii_def sep_def Let_def)

lemma sample_abspath_parent: "abspath (ascii ''/w'') (ascii ''/r/a'') = ascii ''/r/a''"
  by (simp add: abspath_def normpath_def initial_slashes_def norm_step_def ascii_def sep_def Let_def)

lemma sample_abspath_root: "abspath (ascii ''/w'') (ascii ''/r'') = ascii ''/r''"
  by (simp add: abspath_def normpath_def initial_slashes_def norm_step_def ascii_def sep_def Let_def)

lemma sample_relpath: "relpath (ascii ''/w'') (ascii ''/r/a'') (ascii ''/r'') = Inr (ascii ''a'')"
  unfolding relpath_def sample_abspath_parent sample_abspath_root
  by (simp add: ascii_def sep_def Let_def)

lemma sample_scan_record: "measure_and_enqueue (ascii ''/r'') (ascii ''/w'') (\<lambda>p. 100) (ascii ''/r/a/node_modules'')
   = Inr sample_entry"
  by (simp add: measure_and_enqueue_def sample_dirname sample_relpath NodeModulesEntry_def post_init_def
      format_size_samples(1) sample_entry_def)

text \<open>
  Claim C8: every record that the scanner puts on the queue displays the parent
  directory of its target, relative to the scan root. The working directory is an
  absolute path, as \<open>os.getcwd\<close> returns it; the tree is one a filesystem can hold; the
  root is any path. The field \<open>rel_path\<close> is what \<open>relpath\<close> makes of the \<open>dirname\<close> of
  the target. The target is \<open>root/n1/.../nk/node_modules\<close> for names \<open>n1 ... nk\<close> of
  directories, and the displayed path is \<open>n1/.../nk\<close>, or \<open>.\<close> for the target in the root
  itself. It is neither the target path nor the target path made relative to the root,
  which is \<open>n1/.../nk/node_modules\<close>.
\<close>

theorem displayed_path_is_parent:
  assumes "wf_tree t" and "take 1 cwd = [sep]"
    and "e \<in> set (find_node_modules root cwd du t)"
  shows "relpath cwd (dirname (abs_path e)) root = Inr (rel_path e) \<and>
    rel_path e \<noteq> abs_path e \<and>
    relpath cwd (abs_path e) root \<noteq> Inr (rel_path e) \<and>
    (\<exists>ns. (\<forall>n\<in>set ns. wf_name n) \<and>
       abs_path e = join_path (foldl join_path root ns) node_modules \<and>
       relpath cwd (abs_path e) root = Inr (join_sep (ns @ [node_modules])) \<and>
       rel_path e = (if ns = [] then ascii ''.'' else join_sep ns))"
proof -
  from assms(3) obtain ap where ap: "ap \<in> set (walk_paths root t)"
    and m: "measure_and_enqueue root cwd du ap = Inr e"
    unfolding find_node_modules_set by blast
  have a: "abs_path e = ap" and r: "relpath cwd (dirname ap) root = Inr (rel_path e)"
    using measure_and_enqueue_fields [OF m] by simp_all
  from ap obtain ns where ns: "ns \<in> set (walk_names t)"
    and f: "ap = with_sep root @ join_sep (ns @ [node_modules])"
    unfolding walk_paths_formula [OF assms(1)] by auto
  have w: "\<forall>n\<in>set ns. wf_name n" using walk_names_props [OF assms(1) ns] by simp
  have d: "dirname ap \<noteq> []"
  proof
    assume "dirname ap = []"
    then have "relpath cwd (dirname ap) root = Inl ValueError" by (simp add: relpath_def)
    then show False using r by simp
  qed
  have "relpath cwd (dirname ap) root = Inr (if ns = [] then ascii ''.'' else join_sep ns)"
    using d unfolding f by (intro relpath_parent assms(2) w)
  then have rel: "rel_path e = (if ns = [] then ascii ''.'' else join_sep ns)"
    using r by simp
  have p: "ap = join_path (foldl join_path root ns) node_modules"
    unfolding f using path_of_names [OF w] by simp
  have t: "relpath cwd ap root = Inr (join_sep (ns @ [node_modules]))"
    unfolding f using assms(2) w by (rule relpath_target)
  have n1: "rel_path e \<noteq> abs_path e" unfolding rel a f using w by (rule target_longer)
  have "rel_path e \<noteq> with_sep [] @ join_sep (ns @ [node_modules])"
    unfolding rel using w by (rule target_longer)
  then have n2: "relpath cwd ap root \<noteq> Inr (rel_path e)" using t by (simp add: with_sep_empty)
  show ?thesis using a r rel p w t n1 n2 by blast
qed

theorem displayed_path_is_parent_witness:
  "wf_tree sample_tree \<and> take 1 (ascii ''/w'') = [sep] \<and>
   sample_entry \<in> set (find_node_modules (ascii ''/r'') (ascii ''/w'') (\<lambda>p. 100) sample_tree) \<and>
   abs_path sample_entry = ascii ''/r/a/node_modules'' \<and>
   rel_path sample_entry = ascii ''a'' \<and>
   relpath (ascii ''/w'') (dirname (ascii ''/r/a/node_modules'')) (ascii ''/r'') = Inr (ascii ''a'') \<and>
   relpath (ascii ''/w'') (ascii ''/r/a/node_modules'') (ascii ''/r'') \<noteq> Inr (ascii ''a'')"
proof -
  have wf: "wf_tree sample_tree"
    by (simp add: sample_tree_def wf_name_def ascii_def sep_def)
  have cwd: "take 1 (ascii ''/w'') = [sep]"
    by (simp add: ascii_def sep_def)
  have "walk_paths (ascii ''/r'') sample_tree =
     [ascii ''/r/node_modules'', ascii ''/r/a/node_modules'', ascii ''/r/b/c/node_modules'']"
    by (simp add: sample_tree_def node_modules_def join_path_def ascii_def sep_def)
  then have mem: "sample_entry \<in>
    set (find_node_modules (ascii ''/r'') (ascii ''/w'') (\<lambda>p. 100) sample_tree)"
    unfolding find_node_modules_set using sample_scan_record by simp
  have f: "abs_path sample_entry = ascii ''/r/a/node_modules''"
    "rel_path sample_entry = ascii ''a''"
    by (simp_all add: sample_entry_def)
  show ?thesis
    using wf cwd mem f displayed_path_is_parent [OF wf cwd mem] by simp
qed

end
